theory Spec2Isabelle
  imports Main "HOL-Library.Word"
begin

unbundle bit_operations_syntax

section \<open>Values\<close>

text \<open>
  A byte chunk (a Node \<open>Buffer\<close>) is a list of octets; a text chunk (a JavaScript string)
  is a list of UTF-16 code units. Numbers that the source only ever produces with the
  bitwise operators \<open>|\<close>, \<open>&\<close>, \<open>\<lless>\<close>, \<open>\<ggreater>\<close> are signed 32-bit integers: they are
  \<open>32 word\<close>, read with \<open>sint\<close> where the source compares them.
\<close>

type_synonym byte = "8 word"
type_synonym unit16 = "16 word"
type_synonym int32 = "32 word"

section \<open>CESU-8 decoder (class InternalDecoderCesu8)\<close>

record InternalDecoderCesu8 =
  acc :: int32
  contBytes :: nat
  accBytes :: nat
  defaultCharUnicode :: "unit16 list"

definition InternalDecoderCesu8_new :: "unit16 list \<Rightarrow> InternalDecoderCesu8" where
  "InternalDecoderCesu8_new d =
     \<lparr>acc = 0, contBytes = 0, accBytes = 0, defaultCharUnicode = d\<rparr>"

definition InternalDecoderCesu8_hasState :: "InternalDecoderCesu8 \<Rightarrow> bool" where
  "InternalDecoderCesu8_hasState this = (contBytes this > 0)"

text \<open>
  One iteration of the \<open>for\<close> loop of \<open>write\<close>. The locals \<open>acc\<close>, \<open>contBytes\<close>,
  \<open>accBytes\<close> and \<open>res\<close> are threaded through; \<open>d\<close> is \<open>this.defaultCharUnicode\<close>.
  \<open>String.fromCharCode\<close> keeps the low 16 bits of its argument.
\<close>

definition cesu8_dec_step ::
  "unit16 list \<Rightarrow> int32 \<times> nat \<times> nat \<times> unit16 list \<Rightarrow> byte \<Rightarrow> int32 \<times> nat \<times> nat \<times> unit16 list"
where
  "cesu8_dec_step d s curByte =
     (case s of (acc0, contBytes0, accBytes0, res0) \<Rightarrow>
        if curByte AND 0xc0 \<noteq> 0x80 then
          (let res1 = (if contBytes0 > 0 then res0 @ d else res0);
               contBytes1 = (if contBytes0 > 0 then 0 else contBytes0)
           in if curByte < 0x80 then (acc0, contBytes1, accBytes0, res1 @ [ucast curByte])
              else if curByte < 0xe0 then (ucast (curByte AND 0x1f), 1, 1, res1)
              else if curByte < 0xf0 then (ucast (curByte AND 0x0f), 2, 1, res1)
              else (acc0, contBytes1, accBytes0, res1 @ d))
        else if contBytes0 > 0 then
          (let acc1 = push_bit 6 acc0 OR ucast (curByte AND 0x3f);
               contBytes1 = contBytes0 - 1;
               accBytes1 = accBytes0 + 1
           in if contBytes1 = 0 then
                (if accBytes1 = 2 \<and> sint acc1 < 0x80 \<and> sint acc1 > 0
                   then (acc1, contBytes1, accBytes1, res0 @ d)
                 else if accBytes1 = 3 \<and> sint acc1 < 0x800
                   then (acc1, contBytes1, accBytes1, res0 @ d)
                 else (acc1, contBytes1, accBytes1, res0 @ [ucast acc1]))
              else (acc1, contBytes1, accBytes1, res0))
        else (acc0, contBytes0, accBytes0, res0 @ d))"

fun cesu8_dec_loop ::
  "unit16 list \<Rightarrow> int32 \<times> nat \<times> nat \<times> unit16 list \<Rightarrow> byte list \<Rightarrow> int32 \<times> nat \<times> nat \<times> unit16 list"
where
  "cesu8_dec_loop d s [] = s"
| "cesu8_dec_loop d s (curByte # buf) = cesu8_dec_loop d (cesu8_dec_step d s curByte) buf"

text \<open>\<open>write(buf)\<close>: the returned string and the session after the call.\<close>

definition InternalDecoderCesu8_write ::
  "InternalDecoderCesu8 \<Rightarrow> byte list \<Rightarrow> unit16 list \<times> InternalDecoderCesu8"
where
  "InternalDecoderCesu8_write this buf =
     (case cesu8_dec_loop (defaultCharUnicode this)
             (acc this, contBytes this, accBytes this, []) buf of
        (acc1, contBytes1, accBytes1, res) \<Rightarrow>
          (res, this\<lparr>acc := acc1, contBytes := contBytes1, accBytes := accBytes1\<rparr>))"

text \<open>\<open>end()\<close>: it reads \<open>contBytes\<close> and assigns no field.\<close>

definition InternalDecoderCesu8_end ::
  "InternalDecoderCesu8 \<Rightarrow> unit16 list \<times> InternalDecoderCesu8"
where
  "InternalDecoderCesu8_end this =
     ((if contBytes this > 0 then [] @ defaultCharUnicode this else []), this)"

section \<open>Buffers and strings of the host\<close>

text \<open>
  The parts of Node's \<open>Buffer\<close> that the codecs use. \<open>Buffer.alloc(n)\<close> is \<open>n\<close> zero
  bytes. An indexed store \<open>buf[i] = v\<close> keeps the low 8 bits of \<open>v\<close> and does nothing when
  \<open>i\<close> is out of range, which is what \<open>buf[i := v]\<close> does. An indexed read out of range is
  \<open>undefined\<close>, which the bitwise operators read as 0. \<open>writeUInt32LE\<close>/\<open>BE\<close> and
  \<open>readUInt16LE\<close> throw a \<open>RangeError\<close> when the value does not fit or the offset is out
  of bounds.
\<close>

datatype js_error = RangeError

definition Buffer_alloc :: "nat \<Rightarrow> byte list" where
  "Buffer_alloc n = replicate n 0"

definition js_index :: "byte list \<Rightarrow> nat \<Rightarrow> byte option" where
  "js_index buf i = (if i < length buf then Some (buf ! i) else None)"

definition ToInt32 :: "byte option \<Rightarrow> int32" where
  "ToInt32 v = (case v of None \<Rightarrow> 0 | Some x \<Rightarrow> ucast x)"

definition Buffer_from_ucs2 :: "unit16 list \<Rightarrow> byte list" where
  "Buffer_from_ucs2 str = concat (map (\<lambda>c. [ucast c, ucast (drop_bit 8 c)]) str)"

fun toString_ucs2 :: "byte list \<Rightarrow> unit16 list" where
  "toString_ucs2 (lo # hi # buf) = (ucast lo OR push_bit 8 (ucast hi)) # toString_ucs2 buf"
| "toString_ucs2 _ = []"

definition readUInt16LE :: "byte \<Rightarrow> byte \<Rightarrow> unit16" where
  "readUInt16LE lo hi = ucast lo OR push_bit 8 (ucast hi)"

definition writeUInt32LE :: "byte list \<Rightarrow> int \<Rightarrow> nat \<Rightarrow> js_error + byte list" where
  "writeUInt32LE buf v offset =
     (if v < 0 \<or> v > 0xffffffff then Inl RangeError
      else if offset + 4 > length buf then Inl RangeError
      else Inr (buf[offset := word_of_int v,
                    offset + 1 := word_of_int (drop_bit 8 v),
                    offset + 2 := word_of_int (drop_bit 16 v),
                    offset + 3 := word_of_int (drop_bit 24 v)]))"

definition writeUInt32BE :: "byte list \<Rightarrow> int \<Rightarrow> nat \<Rightarrow> js_error + byte list" where
  "writeUInt32BE buf v offset =
     (if v < 0 \<or> v > 0xffffffff then Inl RangeError
      else if offset + 4 > length buf then Inl RangeError
      else Inr (buf[offset := word_of_int (drop_bit 24 v),
                    offset + 1 := word_of_int (drop_bit 16 v),
                    offset + 2 := word_of_int (drop_bit 8 v),
                    offset + 3 := word_of_int v]))"

section \<open>CESU-8 encoder (class InternalEncoderCesu8)\<close>

text \<open>
  The session has no field. \<open>charCodeAt\<close> yields a code unit below \<open>0x10000\<close>, so the
  sums \<open>0xc0 + (charCode >>> 6)\<close> and the like stay below \<open>0x100\<close> in the branch that
  computes them; the store keeps their low 8 bits.
\<close>

definition cesu8_enc_step :: "byte list \<times> nat \<Rightarrow> unit16 \<Rightarrow> byte list \<times> nat" where
  "cesu8_enc_step s charCode =
     (case s of (buf, bufIdx) \<Rightarrow>
        if charCode < 0x80 then (buf[bufIdx := ucast charCode], bufIdx + 1)
        else if charCode < 0x800 then
          (buf[bufIdx := ucast (0xc0 + drop_bit 6 charCode),
               bufIdx + 1 := ucast (0x80 + (charCode AND 0x3f))], bufIdx + 2)
        else
          (buf[bufIdx := ucast (0xe0 + drop_bit 12 charCode),
               bufIdx + 1 := ucast (0x80 + (drop_bit 6 charCode AND 0x3f)),
               bufIdx + 2 := ucast (0x80 + (charCode AND 0x3f))], bufIdx + 3))"

fun cesu8_enc_loop :: "byte list \<times> nat \<Rightarrow> unit16 list \<Rightarrow> byte list \<times> nat" where
  "cesu8_enc_loop s [] = s"
| "cesu8_enc_loop s (charCode # str) = cesu8_enc_loop (cesu8_enc_step s charCode) str"

definition InternalEncoderCesu8_write :: "unit16 list \<Rightarrow> byte list" where
  "InternalEncoderCesu8_write str =
     (case cesu8_enc_loop (Buffer_alloc (length str * 3), 0) str of
        (buf, bufIdx) \<Rightarrow> take bufIdx buf)"

definition InternalEncoderCesu8_hasState :: bool where
  "InternalEncoderCesu8_hasState = False"

section \<open>Base64 streaming encoder (class InternalEncoderBase64)\<close>

text \<open>
  \<open>Buffer.from(str, "base64")\<close> is the host's decoder; the session takes it as the
  parameter \<open>b64\<close>. \<open>str.search(/=*$/)\<close> is the least index from which the rest of the
  string is all \<open>=\<close> (code unit \<open>0x3d\<close>), or \<open>-1\<close> when there is none.
\<close>

record InternalEncoderBase64 =
  prevStr :: "unit16 list"

definition InternalEncoderBase64_new :: InternalEncoderBase64 where
  "InternalEncoderBase64_new = \<lparr>prevStr = []\<rparr>"

definition InternalEncoderBase64_hasState :: "InternalEncoderBase64 \<Rightarrow> bool" where
  "InternalEncoderBase64_hasState this = (length (prevStr this) > 0)"

definition search_eq_tail :: "unit16 list \<Rightarrow> int" where
  "search_eq_tail str =
     (case find (\<lambda>p. list_all (\<lambda>c. c = 0x3d) (drop p str)) [0 ..< Suc (length str)] of
        None \<Rightarrow> - 1
      | Some p \<Rightarrow> int p)"

definition InternalEncoderBase64_byteLength :: "unit16 list \<Rightarrow> int" where
  "InternalEncoderBase64_byteLength str0 =
     (let completeQuads = length str0 - (length str0 mod 4);
          prev = drop completeQuads str0;
          str = take completeQuads str0;
          n1 = search_eq_tail str;
          nonPaddedLength1 = (if n1 = - 1 then int (length str) else n1);
          byteLength1 = 0 + (nonPaddedLength1 * 3) div 4;
          n2 = search_eq_tail prev;
          nonPaddedLength2 = (if n2 = - 1 then int (length str) else n2)
      in byteLength1 + (nonPaddedLength2 * 3) div 4)"

definition InternalEncoderBase64_write ::
  "(unit16 list \<Rightarrow> byte list) \<Rightarrow> InternalEncoderBase64 \<Rightarrow> unit16 list
     \<Rightarrow> byte list \<times> InternalEncoderBase64"
where
  "InternalEncoderBase64_write b64 this str0 =
     (let str = prevStr this @ str0;
          completeQuads = length str - (length str mod 4)
      in (b64 (take completeQuads str), this\<lparr>prevStr := drop completeQuads str\<rparr>))"

text \<open>\<open>end()\<close> decodes \<open>prevStr\<close> and assigns no field.\<close>

definition InternalEncoderBase64_end ::
  "(unit16 list \<Rightarrow> byte list) \<Rightarrow> InternalEncoderBase64 \<Rightarrow> byte list \<times> InternalEncoderBase64"
where
  "InternalEncoderBase64_end b64 this = (b64 (prevStr this), this)"

section \<open>UTF-32 encoder (class Utf32Encoder)\<close>

record Utf32Encoder =
  isLE :: bool
  highSurrogate :: unit16

definition Utf32Encoder_new :: "bool \<Rightarrow> Utf32Encoder" where
  "Utf32Encoder_new le = \<lparr>isLE = le, highSurrogate = 0\<rparr>"

definition Utf32Encoder_hasState :: "Utf32Encoder \<Rightarrow> bool" where
  "Utf32Encoder_hasState this = (highSurrogate this \<noteq> 0)"

definition write32 :: "bool \<Rightarrow> byte list \<Rightarrow> int \<Rightarrow> nat \<Rightarrow> js_error + byte list" where
  "write32 le dst v offset = (if le then writeUInt32LE dst v offset else writeUInt32BE dst v offset)"

text \<open>
  \<open>(((this.highSurrogate - 0xd800) << 10) | (code - 0xdc00)) + 0x10000\<close>: the two
  differences are numbers, the shift and the \<open>|\<close> work on their 32-bit values and give a
  signed 32-bit value, and the sum is a number again.
\<close>

definition utf32_codepoint :: "unit16 \<Rightarrow> unit16 \<Rightarrow> int" where
  "utf32_codepoint h code =
     sint (push_bit 10 (word_of_int (uint h - 0xd800) :: int32)
             OR (word_of_int (uint code - 0xdc00) :: int32)) + 0x10000"

text \<open>Lines 70 to 79 of the loop body: what follows the block on a pending surrogate.\<close>

definition utf32_enc_store ::
  "bool \<Rightarrow> unit16 \<Rightarrow> bool \<Rightarrow> byte list \<times> nat \<Rightarrow> js_error + unit16 \<times> byte list \<times> nat"
where
  "utf32_enc_store le code isHighSurrogate s =
     (case s of (dst, offset) \<Rightarrow>
        if isHighSurrogate then Inr (code, dst, offset)
        else (case write32 le dst (uint code) offset of
                Inl e \<Rightarrow> Inl e
              | Inr dst1 \<Rightarrow> Inr (0, dst1, offset + 4)))"

text \<open>One iteration of the loop of \<open>write\<close> on the code unit \<open>code\<close>.\<close>

definition utf32_enc_step ::
  "bool \<Rightarrow> unit16 \<times> byte list \<times> nat \<Rightarrow> unit16 \<Rightarrow> js_error + unit16 \<times> byte list \<times> nat"
where
  "utf32_enc_step le s code =
     (case s of (h, dst, offset) \<Rightarrow>
        let isHighSurrogate = (0xd800 \<le> code \<and> code < 0xdc00);
            isLowSurrogate = (0xdc00 \<le> code \<and> code < 0xe000)
        in if h \<noteq> 0 then
             (if isHighSurrogate \<or> \<not> isLowSurrogate then
                (case write32 le dst (uint h) offset of
                   Inl e \<Rightarrow> Inl e
                 | Inr dst1 \<Rightarrow> utf32_enc_store le code isHighSurrogate (dst1, offset + 4))
              else
                (case write32 le dst (utf32_codepoint h code) offset of
                   Inl e \<Rightarrow> Inl e
                 | Inr dst1 \<Rightarrow> Inr (0, dst1, offset + 4)))
           else utf32_enc_store le code isHighSurrogate (dst, offset))"

text \<open>
  The loop reads \<open>src\<close> two bytes at a time with \<open>readUInt16LE\<close>, which throws on a
  last single byte.
\<close>

fun utf32_enc_loop ::
  "bool \<Rightarrow> unit16 \<times> byte list \<times> nat \<Rightarrow> byte list \<Rightarrow> js_error + unit16 \<times> byte list \<times> nat"
where
  "utf32_enc_loop le s (lo # hi # src) =
     (case utf32_enc_step le s (readUInt16LE lo hi) of
        Inl e \<Rightarrow> Inl e
      | Inr s1 \<Rightarrow> utf32_enc_loop le s1 src)"
| "utf32_enc_loop le s [lo] = Inl RangeError"
| "utf32_enc_loop le s [] = Inr s"

definition Utf32Encoder_write ::
  "Utf32Encoder \<Rightarrow> unit16 list \<Rightarrow> js_error + byte list \<times> Utf32Encoder"
where
  "Utf32Encoder_write this str =
     (let src = Buffer_from_ucs2 str;
          dst = Buffer_alloc (length src * 2)
      in case utf32_enc_loop (isLE this) (highSurrogate this, dst, 0) src of
           Inl e \<Rightarrow> Inl e
         | Inr (h, dst1, offset) \<Rightarrow>
             Inr ((if offset < length dst1 then take offset dst1 else dst1),
                  this\<lparr>highSurrogate := h\<rparr>))"

fun utf32_byteLength_loop :: "int \<times> unit16 \<Rightarrow> unit16 list \<Rightarrow> int \<times> unit16" where
  "utf32_byteLength_loop s [] = s"
| "utf32_byteLength_loop (byteLength, currentHighSurrogate) (code # str) =
     (let isHighSurrogate = (0xd800 \<le> code \<and> code < 0xdc00);
          isLowSurrogate = (0xdc00 \<le> code \<and> code < 0xe000)
      in if currentHighSurrogate \<noteq> 0 \<and> \<not> (isHighSurrogate \<or> \<not> isLowSurrogate)
           then utf32_byteLength_loop (byteLength + 4, 0) str
         else
           (let byteLength1 = (if currentHighSurrogate \<noteq> 0 then byteLength + 4 else byteLength)
            in if isHighSurrogate then utf32_byteLength_loop (byteLength1, code) str
               else utf32_byteLength_loop (byteLength1 + 4, 0) str))"

definition Utf32Encoder_byteLength :: "unit16 list \<Rightarrow> int" where
  "Utf32Encoder_byteLength str =
     (case utf32_byteLength_loop (0, 0) str of
        (byteLength, currentHighSurrogate) \<Rightarrow>
          if currentHighSurrogate \<noteq> 0 then byteLength + 4 else byteLength)"

text \<open>\<open>end()\<close> returns \<open>undefined\<close> (here \<open>None\<close>) when nothing is pending.\<close>

definition Utf32Encoder_end :: "Utf32Encoder \<Rightarrow> js_error + byte list option \<times> Utf32Encoder" where
  "Utf32Encoder_end this =
     (if highSurrogate this = 0 then Inr (None, this)
      else case write32 (isLE this) (Buffer_alloc 4) (uint (highSurrogate this)) 0 of
             Inl e \<Rightarrow> Inl e
           | Inr buf \<Rightarrow> Inr (Some buf, this\<lparr>highSurrogate := 0\<rparr>))"

section \<open>UTF-32 decoder (class Utf32Decoder)\<close>

record Utf32Decoder =
  isLE :: bool
  badChar :: unit16
  overflow :: "byte list"

definition Utf32Decoder_new :: "bool \<Rightarrow> unit16 \<Rightarrow> Utf32Decoder" where
  "Utf32Decoder_new le bad = \<lparr>isLE = le, badChar = bad, overflow = []\<rparr>"

definition Utf32Decoder_hasState :: "Utf32Decoder \<Rightarrow> bool" where
  "Utf32Decoder_hasState this = (length (overflow this) > 0)"

text \<open>
  \<open>_writeCodepoint\<close>. The code point arrives as a signed 32-bit value; after the range
  check it lies in \<open>0 .. 0x10ffff\<close>, where the subtraction of \<open>0x10000\<close> does not wrap and
  \<open>>>\<close> shifts in zeros.
\<close>

definition writeCodepoint :: "byte list \<Rightarrow> nat \<Rightarrow> int32 \<Rightarrow> unit16 \<Rightarrow> byte list \<times> nat" where
  "writeCodepoint dst offset codepoint0 bad =
     (let codepoint1 = (if sint codepoint0 < 0 \<or> sint codepoint0 > 0x10ffff
                        then ucast bad else codepoint0)
      in if sint codepoint1 \<ge> 0x10000 then
           (let codepoint2 = codepoint1 - 0x10000;
                high = 0xd800 OR signed_drop_bit 10 codepoint2;
                dst1 = dst[offset := ucast (high AND 0xff)];
                dst2 = dst1[offset + 1 := ucast (signed_drop_bit 8 high)];
                codepoint3 = 0xdc00 OR (codepoint2 AND 0x3ff);
                dst3 = dst2[offset + 2 := ucast (codepoint3 AND 0xff)];
                dst4 = dst3[offset + 3 := ucast (signed_drop_bit 8 codepoint3)]
            in (dst4, offset + 4))
         else
           (let dst1 = dst[offset := ucast (codepoint1 AND 0xff)];
                dst2 = dst1[offset + 1 := ucast (signed_drop_bit 8 codepoint1)]
            in (dst2, offset + 2)))"

text \<open>
  The 32-bit value read at index \<open>i\<close> of an array or buffer \<open>a\<close>, in the order of the
  session; an index past the end reads as \<open>undefined\<close>.
\<close>

definition read32 :: "bool \<Rightarrow> byte list \<Rightarrow> nat \<Rightarrow> int32" where
  "read32 le a i =
     (if le then
        ToInt32 (js_index a i) OR push_bit 8 (ToInt32 (js_index a (i + 1)))
          OR push_bit 16 (ToInt32 (js_index a (i + 2)))
          OR push_bit 24 (ToInt32 (js_index a (i + 3)))
      else
        ToInt32 (js_index a (i + 3)) OR push_bit 8 (ToInt32 (js_index a (i + 2)))
          OR push_bit 16 (ToInt32 (js_index a (i + 1)))
          OR push_bit 24 (ToInt32 (js_index a i)))"

text \<open>\<open>for (; i < src.length && overflow.length < 4; i++) overflow.push(src[i])\<close>\<close>

function utf32_dec_drain :: "byte list \<Rightarrow> nat \<Rightarrow> byte list \<Rightarrow> nat \<times> byte list" where
  "utf32_dec_drain src i ov =
     (if i < length src \<and> length ov < 4 then utf32_dec_drain src (i + 1) (ov @ [src ! i])
      else (i, ov))"
  by pat_completeness auto
termination
  by (relation "measure (\<lambda>(src, i, ov). length src - i)") auto

text \<open>The main loop, \<open>for (; i < src.length - 3; i += 4)\<close>.\<close>

function utf32_dec_main ::
  "bool \<Rightarrow> unit16 \<Rightarrow> byte list \<Rightarrow> nat \<Rightarrow> byte list \<times> nat \<Rightarrow> nat \<times> byte list \<times> nat"
where
  "utf32_dec_main le bad src i s =
     (if int i < int (length src) - 3 then
        utf32_dec_main le bad src (i + 4)
          (writeCodepoint (fst s) (snd s) (read32 le src i) bad)
      else (i, s))"
  by pat_completeness auto
termination
  by (relation "measure (\<lambda>(le, bad, src, i, s). length src - i)") auto

text \<open>\<open>for (; i < src.length; i++) overflow.push(src[i])\<close>\<close>

function utf32_dec_keep :: "byte list \<Rightarrow> nat \<Rightarrow> byte list \<Rightarrow> byte list" where
  "utf32_dec_keep src i ov =
     (if i < length src then utf32_dec_keep src (i + 1) (ov @ [src ! i]) else ov)"
  by pat_completeness auto
termination
  by (relation "measure (\<lambda>(src, i, ov). length src - i)") auto

text \<open>
  The three loops are unfolded one iteration at a time, by hand; as rewrite rules their
  equations would not stop.
\<close>

declare utf32_dec_drain.simps [simp del]
declare utf32_dec_main.simps [simp del]
declare utf32_dec_keep.simps [simp del]

definition Utf32Decoder_write :: "Utf32Decoder \<Rightarrow> byte list \<Rightarrow> unit16 list \<times> Utf32Decoder" where
  "Utf32Decoder_write this src =
     (if length src = 0 then ([], this)
      else
        let dst = Buffer_alloc (length src + 4);
            (i1, ov1, s1) =
              (if length (overflow this) > 0 then
                 (case utf32_dec_drain src 0 (overflow this) of
                    (i, ov) \<Rightarrow>
                      if length ov = 4
                        then (i, [], writeCodepoint dst 0 (read32 (isLE this) ov i) (badChar this))
                      else (i, ov, (dst, 0)))
               else (0, overflow this, (dst, 0)));
            (i2, dst2, offset2) = utf32_dec_main (isLE this) (badChar this) src i1 s1;
            ov2 = utf32_dec_keep src i2 ov1
        in (toString_ucs2 (take offset2 dst2), this\<lparr>overflow := ov2\<rparr>))"

text \<open>\<open>end()\<close> empties the overflow array and returns nothing.\<close>

definition Utf32Decoder_end :: "Utf32Decoder \<Rightarrow> unit16 list \<times> Utf32Decoder" where
  "Utf32Decoder_end this = ([], this\<lparr>overflow := []\<rparr>)"

text \<open>A stream fed to a session chunk by chunk, then \<open>end()\<close>: the concatenated output.\<close>

fun Utf32Decoder_stream :: "Utf32Decoder \<Rightarrow> byte list list \<Rightarrow> unit16 list" where
  "Utf32Decoder_stream this [] = fst (Utf32Decoder_end this)"
| "Utf32Decoder_stream this (c # cs) =
     (case Utf32Decoder_write this c of (out, this1) \<Rightarrow> out @ Utf32Decoder_stream this1 cs)"

section \<open>UTF-32 endianness detection (function detectEncoding)\<close>

text \<open>
  The locals of \<open>detectEncoding\<close>, and how an iteration of the inner loop leaves: to the
  next byte, out of both loops (\<open>break outer_loop\<close>), or out of the function.
\<close>

record detect_locals =
  quad :: "byte list"
  charsProcessed :: nat
  invalidLE :: int
  invalidBE :: int
  bmpCharsLE :: int
  bmpCharsBE :: int

datatype detect_flow = Next detect_locals | Break detect_locals | Return string

definition detect_byte :: "detect_locals \<Rightarrow> byte \<Rightarrow> detect_flow" where
  "detect_byte s x =
     (let q = quad s @ [x]
      in if length q = 4 then
           (if charsProcessed s = 0 \<and> q ! 0 = 0xff \<and> q ! 1 = 0xfe \<and> q ! 2 = 0 \<and> q ! 3 = 0
              then Return ''utf-32le''
            else if charsProcessed s = 0 \<and> q ! 0 = 0 \<and> q ! 1 = 0 \<and> q ! 2 = 0xfe \<and> q ! 3 = 0xff
              then Return ''utf-32be''
            else
              (let s1 = \<lparr>quad = [],
                         charsProcessed = charsProcessed s + 1,
                         invalidLE = (if q ! 3 \<noteq> 0 \<or> q ! 2 > 0x10
                                      then invalidLE s + 1 else invalidLE s),
                         invalidBE = (if q ! 0 \<noteq> 0 \<or> q ! 1 > 0x10
                                      then invalidBE s + 1 else invalidBE s),
                         bmpCharsLE = (if (q ! 0 \<noteq> 0 \<or> q ! 1 \<noteq> 0) \<and> q ! 2 = 0 \<and> q ! 3 = 0
                                       then bmpCharsLE s + 1 else bmpCharsLE s),
                         bmpCharsBE = (if q ! 0 = 0 \<and> q ! 1 = 0 \<and> (q ! 2 \<noteq> 0 \<or> q ! 3 \<noteq> 0)
                                       then bmpCharsBE s + 1 else bmpCharsBE s)\<rparr>
               in if charsProcessed s1 \<ge> 100 then Break s1 else Next s1))
         else Next (s\<lparr>quad := q\<rparr>))"

fun detect_inner :: "detect_locals \<Rightarrow> byte list \<Rightarrow> detect_flow" where
  "detect_inner s [] = Next s"
| "detect_inner s (x # buf) =
     (case detect_byte s x of Next s1 \<Rightarrow> detect_inner s1 buf | r \<Rightarrow> r)"

fun detect_outer :: "detect_locals \<Rightarrow> byte list list \<Rightarrow> detect_flow" where
  "detect_outer s [] = Next s"
| "detect_outer s (buf # bufs) =
     (case detect_inner s buf of Next s1 \<Rightarrow> detect_outer s1 bufs | r \<Rightarrow> r)"

definition detect_decide :: "detect_locals \<Rightarrow> string option \<Rightarrow> string" where
  "detect_decide s defaultEncoding =
     (if bmpCharsBE s - invalidBE s > bmpCharsLE s - invalidLE s then ''utf-32be''
      else if bmpCharsBE s - invalidBE s < bmpCharsLE s - invalidLE s then ''utf-32le''
      else case defaultEncoding of
             None \<Rightarrow> ''utf-32le''
           | Some e \<Rightarrow> if e = [] then ''utf-32le'' else e)"

definition detectEncoding :: "byte list list \<Rightarrow> string option \<Rightarrow> string" where
  "detectEncoding bufs defaultEncoding =
     (case detect_outer \<lparr>quad = [], charsProcessed = 0, invalidLE = 0, invalidBE = 0,
                          bmpCharsLE = 0, bmpCharsBE = 0\<rparr> bufs of
        Return e \<Rightarrow> e
      | Break s \<Rightarrow> detect_decide s defaultEncoding
      | Next s \<Rightarrow> detect_decide s defaultEncoding)"

section \<open>Notions of the specification\<close>

text \<open>
  The bytes that the CESU-8 encoder produces for one code unit, read off the three
  branches of its loop body; the proofs compare the buffer handling of \<open>write\<close> with it.
\<close>

definition cesu8_unit_bytes :: "unit16 \<Rightarrow> byte list" where
  "cesu8_unit_bytes c =
     (if c < 0x80 then [ucast c]
      else if c < 0x800 then [ucast (0xc0 + drop_bit 6 c), ucast (0x80 + (c AND 0x3f))]
      else [ucast (0xe0 + drop_bit 12 c), ucast (0x80 + (drop_bit 6 c AND 0x3f)),
            ucast (0x80 + (c AND 0x3f))])"

text \<open>
  The UTF-16 form of a supplementary scalar \<open>S\<close> (\<open>0x10000 \<le> S \<le> 0x10FFFF\<close>), as the
  specification writes it: the high surrogate \<open>0xD800 | ((S - 0x10000) >> 10)\<close> followed
  by the low surrogate \<open>0xDC00 | ((S - 0x10000) & 0x3FF)\<close>.
\<close>

definition utf16_surrogate_pair :: "nat \<Rightarrow> unit16 list" where
  "utf16_surrogate_pair S =
     [of_nat (0xd800 + (S - 0x10000) div 1024), of_nat (0xdc00 + (S - 0x10000) mod 1024)]"

text \<open>
  Endianness detection as the specification describes it, on the whole byte stream: the
  stream is cut into groups of four bytes, an incomplete last group is left out, and at
  most the first 100 groups are looked at. A byte order mark in the very first group
  decides; otherwise each group is counted as invalid or as a BMP character in either
  byte order and the scores are compared. An empty \<open>defaultEncoding\<close> counts as none.
\<close>

fun groups4 :: "byte list \<Rightarrow> byte list list" where
  "groups4 (b0 # b1 # b2 # b3 # rest) = [b0, b1, b2, b3] # groups4 rest"
| "groups4 _ = []"

definition group_invalidBE :: "byte list \<Rightarrow> bool" where
  "group_invalidBE g = (g ! 0 \<noteq> 0 \<or> g ! 1 > 0x10)"

definition group_invalidLE :: "byte list \<Rightarrow> bool" where
  "group_invalidLE g = (g ! 3 \<noteq> 0 \<or> g ! 2 > 0x10)"

definition group_bmpBE :: "byte list \<Rightarrow> bool" where
  "group_bmpBE g = (g ! 0 = 0 \<and> g ! 1 = 0 \<and> (g ! 2 OR g ! 3) \<noteq> 0)"

definition group_bmpLE :: "byte list \<Rightarrow> bool" where
  "group_bmpLE g = ((g ! 0 OR g ! 1) \<noteq> 0 \<and> g ! 2 = 0 \<and> g ! 3 = 0)"

definition detect_spec :: "byte list \<Rightarrow> string option \<Rightarrow> string" where
  "detect_spec bytes defaultEncoding =
     (let gs = take 100 (groups4 bytes)
      in if take 1 gs = [[0xff, 0xfe, 0, 0]] then ''utf-32le''
         else if take 1 gs = [[0, 0, 0xfe, 0xff]] then ''utf-32be''
         else
           (let scoreLE = int (length (filter group_bmpLE gs))
                            - int (length (filter group_invalidLE gs));
                scoreBE = int (length (filter group_bmpBE gs))
                            - int (length (filter group_invalidBE gs))
            in if scoreBE > scoreLE then ''utf-32be''
               else if scoreLE > scoreBE then ''utf-32le''
               else (case defaultEncoding of
                       None \<Rightarrow> ''utf-32le''
                     | Some e \<Rightarrow> if e = [] then ''utf-32le'' else e)))"

text \<open>The locals after one more group \<open>g\<close> has been counted.\<close>

definition detect_count :: "detect_locals \<Rightarrow> byte list \<Rightarrow> detect_locals" where
  "detect_count s g =
     \<lparr>quad = [], charsProcessed = charsProcessed s + 1,
      invalidLE = invalidLE s + (if group_invalidLE g then 1 else 0),
      invalidBE = invalidBE s + (if group_invalidBE g then 1 else 0),
      bmpCharsLE = bmpCharsLE s + (if group_bmpLE g then 1 else 0),
      bmpCharsBE = bmpCharsBE s + (if group_bmpBE g then 1 else 0)\<rparr>"

text \<open>
  The UTF-32 encoder as the specification describes it, on lists: \<open>bytes32\<close> is one
  4-byte emission in the byte order of the session, and \<open>utf32_units h str\<close> is the
  output for the code units \<open>str\<close> when \<open>h\<close> is the pending high surrogate (0 for none),
  together with the surrogate that is pending afterwards.
\<close>

definition bytes32 :: "bool \<Rightarrow> int \<Rightarrow> byte list" where
  "bytes32 le v =
     (if le then [word_of_int v, word_of_int (drop_bit 8 v), word_of_int (drop_bit 16 v),
                  word_of_int (drop_bit 24 v)]
      else [word_of_int (drop_bit 24 v), word_of_int (drop_bit 16 v), word_of_int (drop_bit 8 v),
            word_of_int v])"

fun utf32_units :: "bool \<Rightarrow> unit16 \<Rightarrow> unit16 list \<Rightarrow> byte list \<times> unit16" where
  "utf32_units le h [] = ([], h)"
| "utf32_units le h (c # cs) =
     (if h \<noteq> 0 \<and> 0xdc00 \<le> c \<and> c < 0xe000 then
        (bytes32 le (utf32_codepoint h c) @ fst (utf32_units le 0 cs), snd (utf32_units le 0 cs))
      else if 0xd800 \<le> c \<and> c < 0xdc00 then
        ((if h \<noteq> 0 then bytes32 le (uint h) else []) @ fst (utf32_units le c cs),
         snd (utf32_units le c cs))
      else
        ((if h \<noteq> 0 then bytes32 le (uint h) else []) @ bytes32 le (uint c)
           @ fst (utf32_units le 0 cs),
         snd (utf32_units le 0 cs)))"




text \<open>
  A model of the host's decoder \<open>Buffer.from(str, "base64")\<close>, which is not part of the
  repository. The host reads every code unit of the string as its low byte. Decoding
  stops at the first \<open>=\<close>; a byte outside the two base64 alphabets (\<open>A-Z a-z 0-9 + /\<close>
  and \<open>- _\<close>) is skipped; of a group of four digits the second, third and fourth each
  complete one byte, so a tail of two digits gives one byte, a tail of three gives two
  and a tail of one gives none.
\<close>

definition b64_digit :: "byte \<Rightarrow> nat option" where
  "b64_digit c =
     (if 0x41 \<le> c \<and> c \<le> 0x5a then Some (unat c - 0x41)
      else if 0x61 \<le> c \<and> c \<le> 0x7a then Some (unat c - 0x61 + 26)
      else if 0x30 \<le> c \<and> c \<le> 0x39 then Some (unat c - 0x30 + 52)
      else if c = 0x2b \<or> c = 0x2d then Some 62
      else if c = 0x2f \<or> c = 0x5f then Some 63
      else None)"

fun b64_groups :: "nat list \<Rightarrow> byte list" where
  "b64_groups (a # b # c # d # rest) =
     [of_nat (a * 4 + b div 16), of_nat ((b mod 16) * 16 + c div 4), of_nat ((c mod 4) * 64 + d)]
       @ b64_groups rest"
| "b64_groups [a, b, c] = [of_nat (a * 4 + b div 16), of_nat ((b mod 16) * 16 + c div 4)]"
| "b64_groups [a, b] = [of_nat (a * 4 + b div 16)]"
| "b64_groups _ = []"

definition node_base64 :: "unit16 list \<Rightarrow> byte list" where
  "node_base64 str =
     b64_groups (List.map_filter b64_digit
       (takeWhile (\<lambda>c. c \<noteq> 0x3d) (map (ucast :: unit16 \<Rightarrow> byte) str)))"

section \<open>CESU-8 decoder: properties\<close>

lemma cesu8_dec_loop_res:
  "cesu8_dec_loop d (a, c, n, res) buf =
     (case cesu8_dec_loop d (a, c, n, []) buf of (a', c', n', out) \<Rightarrow> (a', c', n', res @ out))"
proof (induction buf arbitrary: a c n res)
  case Nil
  show ?case by simp
next
  case (Cons b buf)
  obtain a1 c1 n1 o1 where s1: "cesu8_dec_step d (a, c, n, []) b = (a1, c1, n1, o1)"
    by (cases "cesu8_dec_step d (a, c, n, []) b") auto
  have s2: "cesu8_dec_step d (a, c, n, res) b = (a1, c1, n1, res @ o1)"
    using s1 by (auto simp: cesu8_dec_step_def Let_def split: if_splits)
  show ?case
    using Cons.IH [of a1 c1 n1 "res @ o1"] Cons.IH [of a1 c1 n1 o1]
    by (simp add: s1 s2 split: prod.splits)
qed

lemma InternalDecoderCesu8_write_Cons:
  "InternalDecoderCesu8_write this (b # buf) =
     (case InternalDecoderCesu8_write this [b] of (o1, this1) \<Rightarrow>
        case InternalDecoderCesu8_write this1 buf of (o2, this2) \<Rightarrow> (o1 @ o2, this2))"
proof -
  obtain a1 c1 n1 o1
    where s1: "cesu8_dec_step (defaultCharUnicode this)
                 (acc this, contBytes this, accBytes this, []) b = (a1, c1, n1, o1)"
    by (cases "cesu8_dec_step (defaultCharUnicode this)
                 (acc this, contBytes this, accBytes this, []) b") auto
  show ?thesis
    using cesu8_dec_loop_res [of "defaultCharUnicode this" a1 c1 n1 o1 buf]
    by (simp add: InternalDecoderCesu8_write_def s1 split: prod.splits)
qed

subsection \<open>Facts on bytes, by enumeration\<close>

lemma all_bytes:
  fixes b :: byte
  assumes "\<forall>n\<in>set [0..<256]. P (of_nat n :: byte)"
  shows "P b"
proof -
  have "unat b < 256" using unsigned_less [of b, where 'a=nat] by simp
  then have "unat b \<in> set [0..<256]" by simp
  then have "P (of_nat (unat b))" using assms by blast
  then show "P b" by simp
qed

lemma byte_cont_iff:
  fixes b :: byte
  shows "b AND 0xc0 = 0x80 \<longleftrightarrow> 0x80 \<le> b \<and> b \<le> 0xbf"
  by (rule all_bytes [of "\<lambda>b. b AND 0xc0 = 0x80 \<longleftrightarrow> 0x80 \<le> b \<and> b \<le> 0xbf"]) code_simp

lemma byte_ge_f0:
  fixes b :: byte
  assumes "0xf0 \<le> b"
  shows "b AND 0xc0 \<noteq> 0x80" "\<not> b < 0x80" "\<not> b < 0xe0" "\<not> b < 0xf0"
  using assms by (auto simp: byte_cont_iff word_le_nat_alt word_less_nat_alt)

lemma byte_lead2:
  fixes l :: byte
  assumes "0xc0 \<le> l" "l < 0xe0"
  shows "l AND 0xc0 \<noteq> 0x80" "\<not> l < 0x80"
  using assms by (auto simp: byte_cont_iff word_le_nat_alt word_less_nat_alt)

lemma byte_lead3:
  fixes l :: byte
  assumes "0xe0 \<le> l" "l < 0xf0"
  shows "l AND 0xc0 \<noteq> 0x80" "\<not> l < 0x80" "\<not> l < 0xe0"
  using assms by (auto simp: byte_cont_iff word_le_nat_alt word_less_nat_alt)

subsection \<open>Bytes that cannot start or continue a sequence\<close>

text \<open>
  Claim C10. While the decoder is idle (\<open>contBytes = 0\<close>), a byte in \<open>0xF0..0xFF\<close> and a
  continuation byte \<open>0x80..0xBF\<close> each add exactly the replacement string to the output
  and leave every field of the session as it was; the bytes that follow are decoded from
  that same idle session, so none of them is consumed by the rejected byte.
\<close>

theorem cesu8_idle_invalid_bytes:
  assumes "contBytes this = 0"
    and "0xf0 \<le> b \<or> (0x80 \<le> b \<and> b \<le> 0xbf)"
  shows "InternalDecoderCesu8_write this [b] = (defaultCharUnicode this, this)
       \<and> InternalDecoderCesu8_write this (b # buf) =
           (defaultCharUnicode this @ fst (InternalDecoderCesu8_write this buf),
            snd (InternalDecoderCesu8_write this buf))"
proof -
  have one: "InternalDecoderCesu8_write this [b] = (defaultCharUnicode this, this)"
    using assms
    by (auto simp: InternalDecoderCesu8_write_def cesu8_dec_step_def byte_ge_f0 byte_cont_iff)
  have "InternalDecoderCesu8_write this (b # buf) =
           (defaultCharUnicode this @ fst (InternalDecoderCesu8_write this buf),
            snd (InternalDecoderCesu8_write this buf))"
    by (simp add: InternalDecoderCesu8_write_Cons [of this b buf] one split: prod.splits)
  with one show ?thesis by simp
qed

theorem cesu8_idle_invalid_bytes_witness:
  "InternalDecoderCesu8_write (InternalDecoderCesu8_new [0xfffd]) [0xf0, 0x9f, 0x92, 0xa9]
     = ([0xfffd, 0xfffd, 0xfffd, 0xfffd], InternalDecoderCesu8_new [0xfffd])"
  using cesu8_idle_invalid_bytes [of "InternalDecoderCesu8_new [0xfffd]" "0xf0" "[0x9f, 0x92, 0xa9]"]
  by (simp add: InternalDecoderCesu8_new_def InternalDecoderCesu8_write_def cesu8_dec_step_def)

subsection \<open>Completed sequences\<close>

text \<open>
  Claim C6. A two-byte sequence (leader \<open>l2\<close> in \<open>0xC0..0xDF\<close>, one continuation byte)
  with accumulated value \<open>a2\<close> emits the replacement string when \<open>0 < a2 < 0x80\<close> and the
  code unit \<open>a2\<close> otherwise; \<open>C0 80\<close> emits the code unit 0; a three-byte sequence (leader
  \<open>l3\<close> in \<open>0xE0..0xEF\<close>, two continuation bytes) with accumulated value \<open>a3\<close> emits the
  replacement string when \<open>a3 < 0x800\<close> and the code unit \<open>a3\<close> otherwise. The accumulated
  value is the one the session holds afterwards. When the leader interrupts a sequence
  that was still waiting for continuation bytes, the replacement string for that
  sequence comes first (\<open>pending\<close>).
\<close>

theorem cesu8_sequence_completion:
  assumes c1: "0x80 \<le> b1 \<and> b1 \<le> 0xbf" and c2: "0x80 \<le> b2 \<and> b2 \<le> 0xbf"
    and l2: "0xc0 \<le> l2 \<and> l2 < 0xe0" and l3: "0xe0 \<le> l3 \<and> l3 < 0xf0"
    and a2: "a2 = push_bit 6 (ucast (l2 AND 0x1f)) OR ucast (b1 AND 0x3f)"
    and a3: "a3 = push_bit 6 (push_bit 6 (ucast (l3 AND 0x0f)) OR ucast (b1 AND 0x3f))
                    OR ucast (b2 AND 0x3f)"
    and p: "pending = (if contBytes this > 0 then defaultCharUnicode this else [])"
  shows "InternalDecoderCesu8_write this [l2, b1] =
           (pending @ (if 0 < sint a2 \<and> sint a2 < 0x80 then defaultCharUnicode this else [ucast a2]),
            this\<lparr>acc := a2, contBytes := 0, accBytes := 2\<rparr>)
       \<and> InternalDecoderCesu8_write this [0xc0, 0x80] =
           (pending @ [0], this\<lparr>acc := 0, contBytes := 0, accBytes := 2\<rparr>)
       \<and> InternalDecoderCesu8_write this [l3, b1, b2] =
           (pending @ (if sint a3 < 0x800 then defaultCharUnicode this else [ucast a3]),
            this\<lparr>acc := a3, contBytes := 0, accBytes := 3\<rparr>)"
proof (intro conjI)
  show "InternalDecoderCesu8_write this [l2, b1] =
           (pending @ (if 0 < sint a2 \<and> sint a2 < 0x80 then defaultCharUnicode this else [ucast a2]),
            this\<lparr>acc := a2, contBytes := 0, accBytes := 2\<rparr>)"
    using c1 l2 byte_lead2 [of l2]
    by (simp add: InternalDecoderCesu8_write_def cesu8_dec_step_def a2 p byte_cont_iff Let_def)
  show "InternalDecoderCesu8_write this [0xc0, 0x80] =
           (pending @ [0], this\<lparr>acc := 0, contBytes := 0, accBytes := 2\<rparr>)"
    by (simp add: InternalDecoderCesu8_write_def cesu8_dec_step_def p)
  show "InternalDecoderCesu8_write this [l3, b1, b2] =
           (pending @ (if sint a3 < 0x800 then defaultCharUnicode this else [ucast a3]),
            this\<lparr>acc := a3, contBytes := 0, accBytes := 3\<rparr>)"
    using c1 c2 l3 byte_lead3 [of l3]
    by (simp add: InternalDecoderCesu8_write_def cesu8_dec_step_def a3 p byte_cont_iff Let_def)
qed

theorem cesu8_sequence_completion_witness:
  "InternalDecoderCesu8_write (InternalDecoderCesu8_new [0xfffd]) [0xc0, 0x81] =
      ([0xfffd], \<lparr>acc = 1, contBytes = 0, accBytes = 2, defaultCharUnicode = [0xfffd]\<rparr>)
   \<and> InternalDecoderCesu8_write (InternalDecoderCesu8_new [0xfffd]) [0xc0, 0x80] =
      ([0], \<lparr>acc = 0, contBytes = 0, accBytes = 2, defaultCharUnicode = [0xfffd]\<rparr>)
   \<and> InternalDecoderCesu8_write (InternalDecoderCesu8_new [0xfffd]) [0xe0, 0x81, 0x80] =
      ([0xfffd], \<lparr>acc = 0x40, contBytes = 0, accBytes = 3, defaultCharUnicode = [0xfffd]\<rparr>)"
  using cesu8_sequence_completion
          [of "0x81" "0x80" "0xc0" "0xe0" 1 "0x40" "[]" "InternalDecoderCesu8_new [0xfffd]"]
  by (simp add: InternalDecoderCesu8_new_def)

section \<open>CESU-8 round trip\<close>

subsection \<open>Bits of the constants\<close>

lemma unat16_lt: "unat (c::unit16) < 65536"
  using unsigned_less [of c, where 'a=nat] by simp

lemma bit_x80: "bit (0x80 :: int) n \<longleftrightarrow> n = 7"
proof -
  have "(0x80 :: int) = 2 ^ 7" by simp
  then show ?thesis by (simp only: bit_exp_iff) auto
qed

lemma bit_x3f: "bit (0x3f :: int) n \<longleftrightarrow> n < 6"
proof -
  have "(0x3f :: int) = mask 6" by (simp add: mask_eq_exp_minus_1)
  then show ?thesis by (simp only: bit_mask_iff) auto
qed

lemma bit_x1f: "bit (0x1f :: int) n \<longleftrightarrow> n < 5"
proof -
  have "(0x1f :: int) = mask 5" by (simp add: mask_eq_exp_minus_1)
  then show ?thesis by (simp only: bit_mask_iff) auto
qed

lemma bit_x0f: "bit (0x0f :: int) n \<longleftrightarrow> n < 4"
proof -
  have "(0x0f :: int) = mask 4" by (simp add: mask_eq_exp_minus_1)
  then show ?thesis by (simp only: bit_mask_iff) auto
qed

lemma bit_xc0: "bit (0xc0 :: int) n \<longleftrightarrow> n = 6 \<or> n = 7"
proof -
  have "(0xc0 :: int) = push_bit 6 (mask 2)" by (simp add: push_bit_eq_mult mask_eq_exp_minus_1)
  then show ?thesis by (simp only: bit_push_bit_iff bit_mask_iff) auto
qed

lemma bit_xe0: "bit (0xe0 :: int) n \<longleftrightarrow> n = 5 \<or> n = 6 \<or> n = 7"
proof -
  have "(0xe0 :: int) = push_bit 5 (mask 3)" by (simp add: push_bit_eq_mult mask_eq_exp_minus_1)
  then show ?thesis by (simp only: bit_push_bit_iff bit_mask_iff) auto
qed

lemma bit_xfc0: "bit (0xfc0 :: int) n \<longleftrightarrow> 6 \<le> n \<and> n < 12"
proof -
  have "(0xfc0 :: int) = push_bit 6 (mask 6)" by (simp add: push_bit_eq_mult mask_eq_exp_minus_1)
  then show ?thesis by (simp only: bit_push_bit_iff bit_mask_iff) auto
qed

lemmas bit_consts = bit_x80 bit_x3f bit_x1f bit_x0f bit_xc0 bit_xe0 bit_xfc0

subsection \<open>The bytes of one code unit\<close>

lemma lt_800: "(c::unit16) < 0x800 \<Longrightarrow> take_bit 11 c = c"
proof -
  assume "c < 0x800"
  then have "c < 2 ^ 11" by simp
  then have "c AND mask 11 = c" by (rule less_mask_eq)
  then show ?thesis by (simp add: take_bit_eq_mask)
qed

lemma lt_80: "(c::unit16) < 0x80 \<Longrightarrow> take_bit 7 c = c"
proof -
  assume "c < 0x80"
  then have "c < 2 ^ 7" by simp
  then have "c AND mask 7 = c" by (rule less_mask_eq)
  then show ?thesis by (simp add: take_bit_eq_mask)
qed

lemma sint_ucast16: "sint (ucast (c::unit16) :: int32) = uint c"
proof -
  have "uint c < 65536" using unsigned_less [of c, where 'a=int] by simp
  moreover have "(0::int) \<le> uint c" by simp
  then have "- 2147483648 \<le> uint c" by linarith
  ultimately show ?thesis by (simp add: signed_ucast_eq signed_take_bit_int_eq_self_iff)
qed

lemma ucast16_back: "ucast (ucast (c::unit16) :: int32) = c"
  by (simp add: ucast_up_ucast_id is_up)

lemma x80_or: "(0x80 + ((x::unit16) AND 0x3f)) = 0x80 OR (x AND 0x3f)"
  by (rule disjunctive_add_eq_or, rule bit_word_eqI) (auto simp: bit_consts bit_simps)

lemma xe0_or: "(0xe0 + drop_bit 12 (c::unit16)) = 0xe0 OR drop_bit 12 c"
  by (rule disjunctive_add_eq_or, rule bit_word_eqI)
     (auto simp: bit_consts bit_simps dest: bit_imp_le_length)

lemma xc0_or: "(0xc0 + drop_bit 6 (take_bit 11 (c::unit16))) = 0xc0 OR drop_bit 6 (take_bit 11 c)"
  by (rule disjunctive_add_eq_or, rule bit_word_eqI)
     (auto simp: bit_consts bit_simps dest: bit_imp_le_length)

text \<open>A trailing byte is a continuation byte and carries six bits.\<close>

lemma trail_cont: "(ucast (0x80 + ((x::unit16) AND 0x3f)) :: byte) AND 0xc0 = 0x80"
  unfolding x80_or
proof (rule bit_word_eqI)
  fix n assume "n < LENGTH(8)"
  then show "bit ((ucast (0x80 OR (x AND 0x3f)) :: byte) AND 0xc0) n = bit (0x80 :: byte) n"
    by (cases "n < 6") (auto simp add: bit_simps bit_consts)
qed

lemma trail_bits:
  "(ucast ((ucast (0x80 + ((x::unit16) AND 0x3f)) :: byte) AND 0x3f) :: int32) = ucast x AND 0x3f"
  unfolding x80_or
proof (rule bit_word_eqI)
  fix n assume "n < LENGTH(32)"
  then show "bit (ucast ((ucast (0x80 OR (x AND 0x3f) :: unit16) :: byte) AND 0x3f) :: int32) n
           = bit (ucast x AND 0x3f :: int32) n"
    by (cases "n < 6") (auto simp add: bit_simps bit_consts)
qed

lemma lead3_range:
  "0xe0 \<le> (ucast (0xe0 + drop_bit 12 (c::unit16)) :: byte)
   \<and> (ucast (0xe0 + drop_bit 12 c) :: byte) < 0xf0"
proof -
  have "unat c div 4096 < 16" using unat16_lt [of c] by simp
  then show ?thesis
    by (simp add: word_le_nat_alt word_less_nat_alt unsigned_ucast_eq unat_word_ariths
        unat_drop_bit_eq take_bit_eq_mod drop_bit_eq_div)
qed

lemma lead3_bits:
  "ucast ((ucast (0xe0 + drop_bit 12 (c::unit16)) :: byte) AND 0x0f) = (drop_bit 12 (ucast c) :: int32)"
  unfolding xe0_or
  by (rule bit_word_eqI) (auto simp: bit_consts bit_simps dest: bit_imp_le_length)

lemma lead2_range:
  assumes "(c::unit16) < 0x800"
  shows "0xc0 \<le> (ucast (0xc0 + drop_bit 6 c) :: byte) \<and> (ucast (0xc0 + drop_bit 6 c) :: byte) < 0xe0"
proof -
  from assms have "unat c div 64 < 32" by (simp add: word_less_nat_alt)
  then show ?thesis
    by (simp add: word_le_nat_alt word_less_nat_alt unsigned_ucast_eq unat_word_ariths
        unat_drop_bit_eq take_bit_eq_mod drop_bit_eq_div)
qed

lemma lead2_bits0:
  "(ucast ((ucast (0xc0 + drop_bit 6 (take_bit 11 (c::unit16))) :: byte) AND 0x1f) :: int32)
     = drop_bit 6 (ucast (take_bit 11 c))"
  unfolding xc0_or
proof (rule bit_word_eqI)
  fix n assume "n < LENGTH(32)"
  then show "bit (ucast ((ucast (0xc0 OR drop_bit 6 (take_bit 11 c)) :: byte) AND 0x1f) :: int32) n
           = bit (drop_bit 6 (ucast (take_bit 11 c)) :: int32) n"
    by (cases "n < 5") (auto simp add: bit_simps bit_consts)
qed

lemma join3:
  "push_bit 6 (push_bit 6 (drop_bit 12 (ucast c)) OR (ucast (drop_bit 6 c) AND 0x3f))
     OR (ucast c AND 0x3f) = (ucast (c::unit16) :: int32)"
proof (rule bit_word_eqI)
  fix n assume "n < LENGTH(32)"
  then show "bit (push_bit 6 (push_bit 6 (drop_bit 12 (ucast c)) OR (ucast (drop_bit 6 c) AND 0x3f))
               OR (ucast c AND 0x3f) :: int32) n = bit (ucast c :: int32) n"
    by (cases "n < 6"; cases "n < 12") (auto simp add: bit_simps bit_consts)
qed

lemma join2:
  "push_bit 6 (drop_bit 6 (ucast c)) OR (ucast c AND 0x3f) = (ucast (c::unit16) :: int32)"
proof (rule bit_word_eqI)
  fix n assume "n < LENGTH(32)"
  then show "bit (push_bit 6 (drop_bit 6 (ucast c)) OR (ucast c AND 0x3f) :: int32) n
           = bit (ucast c :: int32) n"
    by (cases "n < 6") (auto simp add: bit_simps bit_consts)
qed

lemma unit1:
  assumes "(c::unit16) < 0x80"
  shows "(ucast c :: byte) < 0x80 \<and> ucast (ucast c :: byte) = c"
proof -
  from assms have u: "unat c < 128" by (simp add: word_less_nat_alt)
  have 1: "(ucast c :: byte) < 0x80" using u
    by (simp add: word_less_nat_alt unsigned_ucast_eq take_bit_eq_mod)
  have "ucast (ucast (take_bit 7 c) :: byte) = take_bit 7 c"
    by (rule bit_word_eqI) (auto simp: bit_simps)
  then have 2: "ucast (ucast c :: byte) = c"
    using lt_80 [OF assms] by simp
  from 1 2 show ?thesis by simp
qed


subsection \<open>Stores into a buffer that is long enough\<close>

lemma take_store1:
  "i < length xs \<Longrightarrow> take (Suc i) (xs[i := a]) = take i xs @ [a]"
  by (simp add: take_Suc_conv_app_nth)

lemma take_store2:
  "Suc i < length xs \<Longrightarrow> take (Suc (Suc i)) (xs[i := a, Suc i := b]) = take i xs @ [a, b]"
  using take_store1 [of "Suc i" "xs[i := a]" b] take_store1 [of i xs a] by simp

lemma take_store3:
  "Suc (Suc i) < length xs \<Longrightarrow>
     take (Suc (Suc (Suc i))) (xs[i := a, Suc i := b, Suc (Suc i) := c]) = take i xs @ [a, b, c]"
  using take_store1 [of "Suc (Suc i)" "xs[i := a, Suc i := b]" c] take_store2 [of i xs a b] by simp

lemma take_store4:
  "Suc (Suc (Suc i)) < length xs \<Longrightarrow>
     take (Suc (Suc (Suc (Suc i)))) (xs[i := a, Suc i := b, Suc (Suc i) := c, Suc (Suc (Suc i)) := d])
       = take i xs @ [a, b, c, d]"
  using take_store1 [of "Suc (Suc (Suc i))" "xs[i := a, Suc i := b, Suc (Suc i) := c]" d]
    take_store3 [of i xs a b c] by simp

lemma take_store3':
  "i + 3 \<le> length xs \<Longrightarrow>
     take (i + 3) (xs[i := a, Suc i := b, Suc (Suc i) := c]) = take i xs @ [a, b, c]"
  using take_store3 [of i xs a b c] by (simp add: numeral_3_eq_3)

lemma take_store2':
  "i + 2 \<le> length xs \<Longrightarrow> take (i + 2) (xs[i := a, Suc i := b]) = take i xs @ [a, b]"
  using take_store2 [of i xs a b] by simp

lemma cesu8_enc_step_take:
  assumes "bufIdx + 3 \<le> length buf"
  shows "cesu8_enc_step (buf, bufIdx) c = (buf', bufIdx') \<Longrightarrow>
           length buf' = length buf \<and> bufIdx' = bufIdx + length (cesu8_unit_bytes c)
           \<and> take bufIdx' buf' = take bufIdx buf @ cesu8_unit_bytes c"
  using assms take_store1 [of bufIdx buf] take_store2' [of bufIdx buf] take_store3' [of bufIdx buf]
  by (auto simp: cesu8_enc_step_def cesu8_unit_bytes_def split: if_splits)

lemma length_cesu8_unit_bytes: "length (cesu8_unit_bytes c) \<le> 3"
  by (simp add: cesu8_unit_bytes_def)

lemma cesu8_enc_loop_take:
  "bufIdx + 3 * length str \<le> length buf \<Longrightarrow>
   cesu8_enc_loop (buf, bufIdx) str = (buf', bufIdx') \<Longrightarrow>
     take bufIdx' buf' = take bufIdx buf @ concat (map cesu8_unit_bytes str)"
proof (induction str arbitrary: buf bufIdx)
  case Nil
  then show ?case by simp
next
  case (Cons c str)
  obtain buf1 bufIdx1 where s: "cesu8_enc_step (buf, bufIdx) c = (buf1, bufIdx1)"
    by (cases "cesu8_enc_step (buf, bufIdx) c") auto
  from Cons.prems(1) have "bufIdx + 3 \<le> length buf" by simp
  note st = cesu8_enc_step_take [OF this s]
  have l: "length buf1 = length buf" using st by blast
  have i: "bufIdx1 = bufIdx + length (cesu8_unit_bytes c)" using st by blast
  have t: "take bufIdx1 buf1 = take bufIdx buf @ cesu8_unit_bytes c" using st by blast
  have "bufIdx1 + 3 * length str \<le> length buf1"
    using Cons.prems(1) l i length_cesu8_unit_bytes [of c] by simp
  moreover have "cesu8_enc_loop (buf1, bufIdx1) str = (buf', bufIdx')"
    using Cons.prems(2) s by simp
  ultimately have "take bufIdx' buf' = take bufIdx1 buf1 @ concat (map cesu8_unit_bytes str)"
    by (rule Cons.IH)
  with t show ?case by simp
qed

lemma InternalEncoderCesu8_write_eq:
  "InternalEncoderCesu8_write str = concat (map cesu8_unit_bytes str)"
proof -
  obtain buf' bufIdx'
    where s: "cesu8_enc_loop (Buffer_alloc (length str * 3), 0) str = (buf', bufIdx')"
    by (cases "cesu8_enc_loop (Buffer_alloc (length str * 3), 0) str") auto
  have "0 + 3 * length str \<le> length (Buffer_alloc (length str * 3))"
    by (simp add: Buffer_alloc_def)
  from cesu8_enc_loop_take [OF this s] show ?thesis
    by (simp add: InternalEncoderCesu8_write_def s)
qed

subsection \<open>Decoding the bytes of one code unit\<close>

lemma InternalDecoderCesu8_write_Nil: "InternalDecoderCesu8_write this [] = ([], this)"
  by (simp add: InternalDecoderCesu8_write_def)

lemma InternalDecoderCesu8_write_append:
  "InternalDecoderCesu8_write this (xs @ ys) =
     (case InternalDecoderCesu8_write this xs of (o1, this1) \<Rightarrow>
        case InternalDecoderCesu8_write this1 ys of (o2, this2) \<Rightarrow> (o1 @ o2, this2))"
proof (induction xs arbitrary: this)
  case Nil
  show ?case by (simp add: InternalDecoderCesu8_write_Nil split: prod.splits)
next
  case (Cons x xs)
  show ?case
    by (simp add: InternalDecoderCesu8_write_Cons [of this x "xs @ ys"]
        InternalDecoderCesu8_write_Cons [of this x xs] Cons.IH split: prod.splits)
qed

lemma cesu8_write_seq1:
  assumes "contBytes this = 0" and "b < 0x80"
  shows "InternalDecoderCesu8_write this [b] = ([ucast b], this)"
proof -
  from assms(2) have "b AND 0xc0 \<noteq> 0x80"
    by (auto simp: byte_cont_iff word_le_nat_alt word_less_nat_alt)
  with assms show ?thesis
    by (simp add: InternalDecoderCesu8_write_def cesu8_dec_step_def)
qed

lemma cesu8_write_seq2:
  assumes "contBytes this = 0" and "0xc0 \<le> l2 \<and> l2 < 0xe0" and "b1 AND 0xc0 = 0x80"
    and "a2 = push_bit 6 (ucast (l2 AND 0x1f)) OR ucast (b1 AND 0x3f)"
  shows "InternalDecoderCesu8_write this [l2, b1] =
           ((if 0 < sint a2 \<and> sint a2 < 0x80 then defaultCharUnicode this else [ucast a2]),
            this\<lparr>acc := a2, contBytes := 0, accBytes := 2\<rparr>)"
  using assms byte_lead2 [of l2]
  by (simp add: InternalDecoderCesu8_write_def cesu8_dec_step_def Let_def)

lemma cesu8_write_seq3:
  assumes "contBytes this = 0" and "0xe0 \<le> l3 \<and> l3 < 0xf0"
    and "b1 AND 0xc0 = 0x80" and "b2 AND 0xc0 = 0x80"
    and "a3 = push_bit 6 (push_bit 6 (ucast (l3 AND 0x0f)) OR ucast (b1 AND 0x3f))
                    OR ucast (b2 AND 0x3f)"
  shows "InternalDecoderCesu8_write this [l3, b1, b2] =
           ((if sint a3 < 0x800 then defaultCharUnicode this else [ucast a3]),
            this\<lparr>acc := a3, contBytes := 0, accBytes := 3\<rparr>)"
  using assms byte_lead3 [of l3]
  by (simp add: InternalDecoderCesu8_write_def cesu8_dec_step_def Let_def)

lemma ucast_drop_bit16: "(ucast (drop_bit k (c::unit16)) :: int32) = drop_bit k (ucast c)"
  by (rule bit_word_eqI) (auto simp: bit_simps dest: bit_imp_le_length)

lemma cesu8_decode_unit:
  assumes idle: "contBytes this = 0"
  shows "\<exists>this1. InternalDecoderCesu8_write this (cesu8_unit_bytes c) = ([c], this1)
                 \<and> contBytes this1 = 0"
proof -
  consider (one) "c < 0x80" | (two) "\<not> c < 0x80" "c < 0x800" | (three) "\<not> c < 0x800"
    by (cases "c < 0x80"; cases "c < 0x800") auto
  then show ?thesis
  proof cases
    case one
    then show ?thesis
      using cesu8_write_seq1 [OF idle, of "ucast c"] unit1 [of c] idle
      by (simp add: cesu8_unit_bytes_def)
  next
    case two
    let ?l = "ucast (0xc0 + drop_bit 6 c) :: byte"
    let ?b = "ucast (0x80 + (c AND 0x3f)) :: byte"
    let ?a = "push_bit 6 (ucast (?l AND 0x1f)) OR ucast (?b AND 0x3f) :: int32"
    have t: "take_bit 11 c = c" by (rule lt_800 [OF two(2)])
    have "ucast (?l AND 0x1f) = (drop_bit 6 (ucast c) :: int32)"
      using lead2_bits0 [of c] by (simp add: t)
    then have a: "?a = ucast c"
      by (simp add: trail_bits join2)
    have "uint c \<ge> 0x80" using two(1) by (simp add: word_less_def)
    then have s: "\<not> (0 < sint ?a \<and> sint ?a < 0x80)"
      by (simp only: a sint_ucast16; simp)
    have "InternalDecoderCesu8_write this [?l, ?b] =
            ([ucast ?a], this\<lparr>acc := ?a, contBytes := 0, accBytes := 2\<rparr>)"
      using cesu8_write_seq2 [OF idle lead2_range [OF two(2)] trail_cont [of c] refl] s
      by simp
    then show ?thesis
      using two by (simp only: a ucast16_back cesu8_unit_bytes_def; simp)
  next
    case three
    let ?l = "ucast (0xe0 + drop_bit 12 c) :: byte"
    let ?b1 = "ucast (0x80 + (drop_bit 6 c AND 0x3f)) :: byte"
    let ?b2 = "ucast (0x80 + (c AND 0x3f)) :: byte"
    let ?a = "push_bit 6 (push_bit 6 (ucast (?l AND 0x0f)) OR ucast (?b1 AND 0x3f))
                OR ucast (?b2 AND 0x3f) :: int32"
    have a: "?a = ucast c"
      by (simp only: lead3_bits trail_bits join3)
    have "uint c \<ge> 0x800" using three by (simp add: word_less_def)
    then have s: "\<not> sint ?a < 0x800"
      by (simp only: a sint_ucast16; simp)
    have n80: "\<not> c < 0x80" using three by (simp add: word_less_nat_alt)
    have "InternalDecoderCesu8_write this [?l, ?b1, ?b2] =
            ([ucast ?a], this\<lparr>acc := ?a, contBytes := 0, accBytes := 3\<rparr>)"
      using cesu8_write_seq3 [OF idle lead3_range [of c] trail_cont [of "drop_bit 6 c"]
              trail_cont [of c] refl] s
      by simp
    then show ?thesis
      using three n80 by (simp only: a ucast16_back cesu8_unit_bytes_def; simp)
  qed
qed

lemma cesu8_decode_units:
  "contBytes this = 0 \<Longrightarrow>
     \<exists>this1. InternalDecoderCesu8_write this (concat (map cesu8_unit_bytes str)) = (str, this1)
             \<and> contBytes this1 = 0"
proof (induction str arbitrary: this)
  case Nil
  then show ?case by (simp add: InternalDecoderCesu8_write_Nil)
next
  case (Cons c str)
  from cesu8_decode_unit [OF Cons.prems, of c] obtain this1
    where 1: "InternalDecoderCesu8_write this (cesu8_unit_bytes c) = ([c], this1)"
      and i1: "contBytes this1 = 0" by blast
  from Cons.IH [OF i1] obtain this2
    where 2: "InternalDecoderCesu8_write this1 (concat (map cesu8_unit_bytes str)) = (str, this2)"
      and i2: "contBytes this2 = 0" by blast
  show ?case
    by (simp add: InternalDecoderCesu8_write_append 1 2 i2)
qed


subsection \<open>Encoding, then decoding\<close>

lemma surrogate_units_ge_800:
  assumes "0x10000 \<le> S" "S \<le> 0x10ffff"
  shows "\<not> (of_nat (0xd800 + (S - 0x10000) div 1024) :: unit16) < 0x800"
    and "\<not> (of_nat (0xdc00 + (S - 0x10000) mod 1024) :: unit16) < 0x800"
proof -
  have d: "(S - 0x10000) div 1024 < 1024" using assms by simp
  have m: "(S - 0x10000) mod 1024 < 1024" by simp
  have "unat (of_nat (0xd800 + (S - 0x10000) div 1024) :: unit16)
          = (0xd800 + (S - 0x10000) div 1024) mod 65536"
    by (simp only: unat_of_nat) simp
  then show "\<not> (of_nat (0xd800 + (S - 0x10000) div 1024) :: unit16) < 0x800"
    using d by (simp only: word_less_nat_alt) simp
  have "unat (of_nat (0xdc00 + (S - 0x10000) mod 1024) :: unit16)
          = (0xdc00 + (S - 0x10000) mod 1024) mod 65536"
    by (simp only: unat_of_nat) simp
  then show "\<not> (of_nat (0xdc00 + (S - 0x10000) mod 1024) :: unit16) < 0x800"
    using m by (simp only: word_less_nat_alt) simp
qed

lemma cesu8_unit_bytes_three:
  assumes "\<not> c < 0x800"
  shows "\<exists>l a1 a2. cesu8_unit_bytes c = [l, a1, a2] \<and> 0xe0 \<le> l \<and> l < 0xf0
           \<and> 0x80 \<le> a1 \<and> a1 \<le> 0xbf \<and> 0x80 \<le> a2 \<and> a2 \<le> 0xbf"
proof -
  have "\<not> c < 0x80" using assms by (simp add: word_less_nat_alt)
  then show ?thesis
    using assms lead3_range [of c] trail_cont [of "drop_bit 6 c"] trail_cont [of c]
    by (simp add: cesu8_unit_bytes_def byte_cont_iff)
qed

text \<open>
  Claim C5. Encoding a string and decoding the bytes with a fresh decoder gives the string
  back, for every string of code units and so for every string of BMP scalars and for the
  surrogate pair of a supplementary scalar; the decoder is idle afterwards and \<open>end()\<close>
  adds nothing. The encoding of the surrogate pair of a supplementary scalar \<open>S\<close> is six
  bytes: twice a leader in \<open>0xE0..0xEF\<close> followed by two continuation bytes.
\<close>

theorem cesu8_roundtrip:
  "fst (InternalDecoderCesu8_write (InternalDecoderCesu8_new d) (InternalEncoderCesu8_write str))
     = str
   \<and> InternalDecoderCesu8_end
        (snd (InternalDecoderCesu8_write (InternalDecoderCesu8_new d)
               (InternalEncoderCesu8_write str)))
     = ([], snd (InternalDecoderCesu8_write (InternalDecoderCesu8_new d)
                  (InternalEncoderCesu8_write str)))
   \<and> (0x10000 \<le> S \<and> S \<le> 0x10ffff \<longrightarrow>
        (\<exists>l1 a1 a2 l2 a3 a4.
           InternalEncoderCesu8_write (utf16_surrogate_pair S) = [l1, a1, a2, l2, a3, a4]
           \<and> 0xe0 \<le> l1 \<and> l1 < 0xf0 \<and> 0x80 \<le> a1 \<and> a1 \<le> 0xbf \<and> 0x80 \<le> a2 \<and> a2 \<le> 0xbf
           \<and> 0xe0 \<le> l2 \<and> l2 < 0xf0 \<and> 0x80 \<le> a3 \<and> a3 \<le> 0xbf \<and> 0x80 \<le> a4 \<and> a4 \<le> 0xbf))"
proof (intro conjI impI)
  have "contBytes (InternalDecoderCesu8_new d) = 0"
    by (simp add: InternalDecoderCesu8_new_def)
  from cesu8_decode_units [OF this, of str] obtain this1
    where w: "InternalDecoderCesu8_write (InternalDecoderCesu8_new d)
                (concat (map cesu8_unit_bytes str)) = (str, this1)"
      and i: "contBytes this1 = 0" by blast
  show "fst (InternalDecoderCesu8_write (InternalDecoderCesu8_new d)
          (InternalEncoderCesu8_write str)) = str"
    by (simp add: InternalEncoderCesu8_write_eq w)
  show "InternalDecoderCesu8_end
        (snd (InternalDecoderCesu8_write (InternalDecoderCesu8_new d)
               (InternalEncoderCesu8_write str)))
     = ([], snd (InternalDecoderCesu8_write (InternalDecoderCesu8_new d)
                  (InternalEncoderCesu8_write str)))"
    by (simp add: InternalEncoderCesu8_write_eq w i InternalDecoderCesu8_end_def)
next
  assume S: "0x10000 \<le> S \<and> S \<le> 0x10ffff"
  then have S1: "0x10000 \<le> S" and S2: "S \<le> 0x10ffff" by simp_all
  from cesu8_unit_bytes_three [OF surrogate_units_ge_800(1) [OF S1 S2]]
  obtain l1 a1 a2
    where 1: "cesu8_unit_bytes (of_nat (0xd800 + (S - 0x10000) div 1024)) = [l1, a1, a2]"
      and r1: "0xe0 \<le> l1 \<and> l1 < 0xf0 \<and> 0x80 \<le> a1 \<and> a1 \<le> 0xbf \<and> 0x80 \<le> a2 \<and> a2 \<le> 0xbf"
    by blast
  from cesu8_unit_bytes_three [OF surrogate_units_ge_800(2) [OF S1 S2]]
  obtain l2 a3 a4
    where 2: "cesu8_unit_bytes (of_nat (0xdc00 + (S - 0x10000) mod 1024)) = [l2, a3, a4]"
      and r2: "0xe0 \<le> l2 \<and> l2 < 0xf0 \<and> 0x80 \<le> a3 \<and> a3 \<le> 0xbf \<and> 0x80 \<le> a4 \<and> a4 \<le> 0xbf"
    by blast
  have "InternalEncoderCesu8_write (utf16_surrogate_pair S) = [l1, a1, a2, l2, a3, a4]"
    by (simp only: InternalEncoderCesu8_write_eq utf16_surrogate_pair_def list.map concat.simps
        1 2; simp)
  with r1 r2 show "\<exists>l1 a1 a2 l2 a3 a4.
           InternalEncoderCesu8_write (utf16_surrogate_pair S) = [l1, a1, a2, l2, a3, a4]
           \<and> 0xe0 \<le> l1 \<and> l1 < 0xf0 \<and> 0x80 \<le> a1 \<and> a1 \<le> 0xbf \<and> 0x80 \<le> a2 \<and> a2 \<le> 0xbf
           \<and> 0xe0 \<le> l2 \<and> l2 < 0xf0 \<and> 0x80 \<le> a3 \<and> a3 \<le> 0xbf \<and> 0x80 \<le> a4 \<and> a4 \<le> 0xbf"
    by blast
qed

theorem cesu8_roundtrip_witness:
  "(0x10000::nat) \<le> 0x1f4a9 \<and> (0x1f4a9::nat) \<le> 0x10ffff
   \<and> utf16_surrogate_pair 0x1f4a9 = [0xd83d, 0xdca9]
   \<and> InternalEncoderCesu8_write [0xd83d, 0xdca9] = [0xed, 0xa0, 0xbd, 0xed, 0xb2, 0xa9]
   \<and> fst (InternalDecoderCesu8_write (InternalDecoderCesu8_new [0xfffd])
            (InternalEncoderCesu8_write [0xd83d, 0xdca9])) = [0xd83d, 0xdca9]"
proof -
  have p: "utf16_surrogate_pair 0x1f4a9 = [0xd83d, 0xdca9]"
    by (simp add: utf16_surrogate_pair_def)
  have e: "InternalEncoderCesu8_write [0xd83d, 0xdca9] = [0xed, 0xa0, 0xbd, 0xed, 0xb2, 0xa9]"
    by code_simp
  show ?thesis
    using cesu8_roundtrip [of "[0xfffd]" "[0xd83d, 0xdca9]" "0x1f4a9"] p e by simp
qed


section \<open>Endianness detection\<close>

lemma detect_inner_append:
  "detect_inner s (xs @ ys) =
     (case detect_inner s xs of Next s1 \<Rightarrow> detect_inner s1 ys | Break s1 \<Rightarrow> Break s1
      | Return e \<Rightarrow> Return e)"
  by (induction xs arbitrary: s) (auto split: detect_flow.splits)

lemma detect_outer_concat: "detect_outer s bufs = detect_inner s (concat bufs)"
  by (induction bufs arbitrary: s) (auto simp: detect_inner_append split: detect_flow.splits)

lemma detect_inner_short:
  "quad s = [] \<Longrightarrow> length xs < 4 \<Longrightarrow> detect_inner s xs = Next (s\<lparr>quad := xs\<rparr>)"
proof -
  assume q: "quad s = []" and l: "length xs < 4"
  consider "xs = []" | a where "xs = [a]" | a b where "xs = [a, b]" | a b c where "xs = [a, b, c]"
    using l by (cases xs rule: groups4.cases) auto
  then show ?thesis using q by cases (auto simp: detect_byte_def)
qed

lemma detect_inner_group:
  assumes "quad s = []"
  shows "detect_inner s (b0 # b1 # b2 # b3 # rest) =
     (if charsProcessed s = 0 \<and> [b0, b1, b2, b3] = [0xff, 0xfe, 0, 0] then Return ''utf-32le''
      else if charsProcessed s = 0 \<and> [b0, b1, b2, b3] = [0, 0, 0xfe, 0xff] then Return ''utf-32be''
      else if charsProcessed s + 1 \<ge> 100 then Break (detect_count s [b0, b1, b2, b3])
      else detect_inner (detect_count s [b0, b1, b2, b3]) rest)"
  using assms
  by (auto simp: detect_byte_def detect_count_def Let_def group_invalidLE_def group_invalidBE_def
      group_bmpLE_def group_bmpBE_def or_eq_0_iff)


lemma groups4_short: "length xs < 4 \<Longrightarrow> groups4 xs = []"
  by (cases xs rule: groups4.cases) auto

lemma not_short_group: "\<not> length (xs::byte list) < 4 \<Longrightarrow> \<exists>b0 b1 b2 b3 rest. xs = b0 # b1 # b2 # b3 # rest"
  by (cases xs rule: groups4.cases) auto

lemma detect_inner_groups:
  "quad s = [] \<Longrightarrow> 0 < charsProcessed s \<Longrightarrow> charsProcessed s < 100 \<Longrightarrow>
     \<exists>q. detect_inner s bytes
            = Next ((foldl detect_count s (take (100 - charsProcessed s) (groups4 bytes)))\<lparr>quad := q\<rparr>)
       \<or> detect_inner s bytes
            = Break ((foldl detect_count s (take (100 - charsProcessed s) (groups4 bytes)))\<lparr>quad := q\<rparr>)"
proof (induction bytes arbitrary: s rule: groups4.induct)
  case (1 b0 b1 b2 b3 rest)
  let ?g = "[b0, b1, b2, b3]"
  let ?s1 = "detect_count s ?g"
  have q1: "quad ?s1 = []" and c1: "charsProcessed ?s1 = charsProcessed s + 1"
    by (simp_all add: detect_count_def)
  have t: "take (100 - charsProcessed s) (groups4 (b0 # b1 # b2 # b3 # rest))
             = ?g # take (100 - charsProcessed ?s1) (groups4 rest)"
    using "1.prems"(3) by (simp add: c1 take_Cons')
  show ?case
  proof (cases "charsProcessed s + 1 \<ge> 100")
    case True
    then have "detect_inner s (b0 # b1 # b2 # b3 # rest) = Break ?s1"
      using "1.prems" by (simp add: detect_inner_group del: detect_inner.simps)
    moreover have "foldl detect_count s (take (100 - charsProcessed s)
                     (groups4 (b0 # b1 # b2 # b3 # rest))) = ?s1"
      using True by (simp only: t c1 foldl_Cons) simp
    moreover have "?s1\<lparr>quad := []\<rparr> = ?s1" using q1 by simp
    ultimately show ?thesis by metis
  next
    case False
    then have "detect_inner s (b0 # b1 # b2 # b3 # rest) = detect_inner ?s1 rest"
      using "1.prems" by (simp add: detect_inner_group del: detect_inner.simps)
    moreover have "foldl detect_count s (take (100 - charsProcessed s)
                     (groups4 (b0 # b1 # b2 # b3 # rest)))
                   = foldl detect_count ?s1 (take (100 - charsProcessed ?s1) (groups4 rest))"
      by (simp only: t foldl_Cons)
    moreover have "\<exists>q. detect_inner ?s1 rest
            = Next ((foldl detect_count ?s1 (take (100 - charsProcessed ?s1) (groups4 rest)))\<lparr>quad := q\<rparr>)
       \<or> detect_inner ?s1 rest
            = Break ((foldl detect_count ?s1 (take (100 - charsProcessed ?s1) (groups4 rest)))\<lparr>quad := q\<rparr>)"
      using False by (intro "1.IH" q1) (simp_all add: c1)
    ultimately show ?thesis by simp
  qed
qed (auto simp add: detect_inner_short simp del: detect_inner.simps)

lemma detect_count_fold:
  "invalidLE (foldl detect_count s gs) = invalidLE s + int (length (filter group_invalidLE gs))
   \<and> invalidBE (foldl detect_count s gs) = invalidBE s + int (length (filter group_invalidBE gs))
   \<and> bmpCharsLE (foldl detect_count s gs) = bmpCharsLE s + int (length (filter group_bmpLE gs))
   \<and> bmpCharsBE (foldl detect_count s gs) = bmpCharsBE s + int (length (filter group_bmpBE gs))"
  by (induction gs arbitrary: s) (auto simp: detect_count_def)

lemma detect_decide_quad: "detect_decide (s\<lparr>quad := q\<rparr>) d = detect_decide s d"
  by (simp add: detect_decide_def)

lemma detect_decide_fold:
  assumes "invalidLE s = 0" "invalidBE s = 0" "bmpCharsLE s = 0" "bmpCharsBE s = 0"
  shows "detect_decide (foldl detect_count s gs) d =
     (let scoreLE = int (length (filter group_bmpLE gs)) - int (length (filter group_invalidLE gs));
          scoreBE = int (length (filter group_bmpBE gs)) - int (length (filter group_invalidBE gs))
      in if scoreBE > scoreLE then ''utf-32be''
         else if scoreLE > scoreBE then ''utf-32le''
         else (case d of None \<Rightarrow> ''utf-32le'' | Some e \<Rightarrow> if e = [] then ''utf-32le'' else e))"
  using assms detect_count_fold [of s gs]
  by (simp add: detect_decide_def Let_def)

text \<open>
  Claim C7. \<open>detectEncoding\<close> on a list of chunks returns what the specification's
  detector returns on the concatenated bytes: the byte order mark of the very first group
  decides, otherwise the scores over at most the first 100 four-byte groups, grouped
  across chunk boundaries, and on a tie \<open>defaultEncoding\<close> or \<open>utf-32le\<close>.
\<close>

theorem detectEncoding_refines_spec:
  "detectEncoding bufs defaultEncoding = detect_spec (concat bufs) defaultEncoding"
proof -
  let ?s0 = "\<lparr>quad = [], charsProcessed = 0, invalidLE = 0, invalidBE = 0,
              bmpCharsLE = 0, bmpCharsBE = 0\<rparr>"
  show ?thesis
  proof (cases "length (concat bufs) < 4")
    case True
    then have g: "groups4 (concat bufs) = []"
      by (rule groups4_short)
    have "detect_inner ?s0 (concat bufs) = Next (?s0\<lparr>quad := concat bufs\<rparr>)"
      using True by (simp add: detect_inner_short)
    then show ?thesis
      by (simp add: detectEncoding_def detect_outer_concat detect_spec_def g detect_decide_def)
  next
    case False
    then obtain b0 b1 b2 b3 rest where c: "concat bufs = b0 # b1 # b2 # b3 # rest"
      using not_short_group [of "concat bufs"] by blast
    let ?g = "[b0, b1, b2, b3]"
    let ?s1 = "detect_count ?s0 ?g"
    have t1: "take 1 (take 100 (groups4 (concat bufs))) = [?g]"
      by (simp add: c)
    show ?thesis
    proof (cases "?g = [0xff, 0xfe, 0, 0] \<or> ?g = [0, 0, 0xfe, 0xff]")
      case True
      then show ?thesis
        by (auto simp add: detectEncoding_def detect_outer_concat c detect_inner_group
            detect_spec_def simp del: detect_inner.simps)
    next
      case False
      have q1: "quad ?s1 = []" and c1: "charsProcessed ?s1 = 1"
        by (simp_all add: detect_count_def)
      have i: "detect_inner ?s0 (concat bufs) = detect_inner ?s1 rest"
        using False by (auto simp add: c detect_inner_group simp del: detect_inner.simps)
      have f: "foldl detect_count ?s1 (take (100 - charsProcessed ?s1) (groups4 rest))
                 = foldl detect_count ?s0 (take 100 (groups4 (concat bufs)))"
        by (simp add: c c1)
      from detect_inner_groups [of ?s1 rest] q1 c1 obtain q
        where "detect_inner ?s1 rest
                 = Next ((foldl detect_count ?s0 (take 100 (groups4 (concat bufs))))\<lparr>quad := q\<rparr>)
               \<or> detect_inner ?s1 rest
                 = Break ((foldl detect_count ?s0 (take 100 (groups4 (concat bufs))))\<lparr>quad := q\<rparr>)"
        unfolding f by auto
      then have "detectEncoding bufs defaultEncoding
                   = detect_decide (foldl detect_count ?s0 (take 100 (groups4 (concat bufs))))
                       defaultEncoding"
        by (auto simp add: detectEncoding_def detect_outer_concat i detect_decide_quad)
      also have "\<dots> = detect_spec (concat bufs) defaultEncoding"
      proof -
        have n1: "take 1 (take 100 (groups4 (concat bufs))) \<noteq> [[0xff, 0xfe, 0, 0]]"
          using False unfolding t1 by simp
        have n2: "take 1 (take 100 (groups4 (concat bufs))) \<noteq> [[0, 0, 0xfe, 0xff]]"
          using False unfolding t1 by simp
        have z: "invalidLE ?s0 = 0" "invalidBE ?s0 = 0" "bmpCharsLE ?s0 = 0" "bmpCharsBE ?s0 = 0"
          by simp_all
        show ?thesis
          by (simp only: detect_decide_fold [OF z] detect_spec_def Let_def n1 n2 if_False)
      qed
      finally show ?thesis .
    qed
  qed
qed

theorem detectEncoding_refines_spec_witness:
  "detectEncoding [[0x41, 0, 0], [0, 0x42, 0, 0, 0, 0x43]] None = ''utf-32le''
   \<and> detect_spec [0x41, 0, 0, 0, 0x42, 0, 0, 0, 0x43] None = ''utf-32le''"
proof -
  have "detectEncoding [[0x41, 0, 0], [0, 0x42, 0, 0, 0, 0x43]] None = ''utf-32le''"
    by code_simp
  then show ?thesis
    using detectEncoding_refines_spec [of "[[0x41, 0, 0], [0, 0x42, 0, 0, 0, 0x43]]" None]
    by simp
qed

section \<open>UTF-32 encoder\<close>

subsection \<open>The combined code point\<close>

lemma utf32_codepoint_value:
  assumes h: "0xd800 \<le> h" "h < 0xdc00" and c: "0xdc00 \<le> c" "c < 0xe000"
  shows "utf32_codepoint h c = 0x10000 + (uint h - 0xd800) * 1024 + (uint c - 0xdc00)"
proof -
  define a where "a = uint h - 0xd800"
  define b where "b = uint c - 0xdc00"
  have a: "0 \<le> a" "a < 1024" using h by (simp_all add: a_def word_le_def word_less_def)
  have b: "0 \<le> b" "b < 1024" using c by (simp_all add: b_def word_le_def word_less_def)
  have ta: "take_bit 10 a = a" using a by (simp add: take_bit_int_eq_self)
  have tb: "take_bit 10 b = b" using b by (simp add: take_bit_int_eq_self)
  have "push_bit 10 (take_bit 10 a) + take_bit 10 b = push_bit 10 (take_bit 10 a) OR take_bit 10 b"
    by (rule disjunctive_add_eq_or, rule bit_eqI) (auto simp: bit_simps)
  then have o: "push_bit 10 a OR b = a * 1024 + b"
    by (simp add: ta tb push_bit_eq_mult)
  have "(push_bit 10 (word_of_int a) OR word_of_int b :: int32) = word_of_int (push_bit 10 a OR b)"
    by (rule bit_word_eqI) (auto simp: bit_simps)
  then have "sint (push_bit 10 (word_of_int a) OR word_of_int b :: int32) = a * 1024 + b"
    using a b by (simp add: o signed_of_int signed_take_bit_int_eq_self del: of_int_add of_int_mult)
  then show ?thesis
    by (simp add: utf32_codepoint_def a_def b_def)
qed

lemma utf32_codepoint_range:
  assumes "0xd800 \<le> h" "h < 0xdc00" "0xdc00 \<le> c" "c < 0xe000"
  shows "0x10000 \<le> utf32_codepoint h c \<and> utf32_codepoint h c \<le> 0x10ffff"
  using assms by (simp add: utf32_codepoint_value word_le_def word_less_def)

subsection \<open>32-bit stores\<close>

lemma length_bytes32: "length (bytes32 le v) = 4"
  by (simp add: bytes32_def)

lemma take_store4':
  "i + 4 \<le> length xs \<Longrightarrow>
     take (i + 4) (xs[i := a, Suc i := b, Suc (Suc i) := c, i + 3 := d]) = take i xs @ [a, b, c, d]"
  using take_store4 [of i xs a b c d] by (simp add: numeral_3_eq_3 numeral_Bit0 )

lemma write32_ok:
  assumes "0 \<le> v" "v \<le> 0xffffffff" "offset + 4 \<le> length dst"
  shows "\<exists>dst1. write32 le dst v offset = Inr dst1 \<and> length dst1 = length dst
           \<and> take (offset + 4) dst1 = take offset dst @ bytes32 le v"
  using assms take_store4' [of offset dst]
  by (simp add: write32_def writeUInt32LE_def writeUInt32BE_def bytes32_def)

lemma write32_full:
  assumes "length dst < offset + 4"
  shows "write32 le dst v offset = Inl RangeError"
  using assms by (simp add: write32_def writeUInt32LE_def writeUInt32BE_def)


subsection \<open>One code unit\<close>

lemma uint16_range: "0 \<le> uint (x::unit16) \<and> uint x \<le> 0xffffffff"
proof -
  have "uint x < 2 ^ 16" using uint_lt2p [of x] by simp
  then show ?thesis by simp
qed

lemma utf32_units_Cons:
  "utf32_units le h (c # cs) =
     (fst (utf32_units le h [c]) @ fst (utf32_units le (snd (utf32_units le h [c])) cs),
      snd (utf32_units le (snd (utf32_units le h [c])) cs))"
  by simp

lemma utf32_units_pending:
  "h = 0 \<or> (0xd800 \<le> h \<and> h < 0xdc00) \<Longrightarrow>
     snd (utf32_units le h [c]) = 0
     \<or> (0xd800 \<le> snd (utf32_units le h [c]) \<and> snd (utf32_units le h [c]) < 0xdc00)"
  by auto

lemma utf32_enc_step_gen:
  assumes inv: "h = 0 \<or> (0xd800 \<le> h \<and> h < 0xdc00)"
    and units: "utf32_units le h [c] = (out, h1)"
    and off: "offset \<le> length dst"
  shows "(offset + length out \<le> length dst \<longrightarrow>
           (\<exists>dst1. utf32_enc_step le (h, dst, offset) c = Inr (h1, dst1, offset + length out)
                  \<and> length dst1 = length dst
                  \<and> take (offset + length out) dst1 = take offset dst @ out))
       \<and> (length dst < offset + length out \<longrightarrow>
            utf32_enc_step le (h, dst, offset) c = Inl RangeError)"
proof -
  consider (pair) "h \<noteq> 0" "0xdc00 \<le> c \<and> c < 0xe000"
    | (lone_high) "h \<noteq> 0" "\<not> (0xdc00 \<le> c \<and> c < 0xe000)" "0xd800 \<le> c \<and> c < 0xdc00"
    | (lone_other) "h \<noteq> 0" "\<not> (0xdc00 \<le> c \<and> c < 0xe000)" "\<not> (0xd800 \<le> c \<and> c < 0xdc00)"
    | (high) "h = 0" "0xd800 \<le> c \<and> c < 0xdc00"
    | (other) "h = 0" "\<not> (0xd800 \<le> c \<and> c < 0xdc00)"
    by blast
  then show ?thesis
  proof cases
    case pair
    then have nh: "\<not> c < 0xdc00"
      by (auto simp: word_le_nat_alt word_less_nat_alt)
    have u: "out = bytes32 le (utf32_codepoint h c)" "h1 = 0"
      using units by (simp_all add: pair)
    have r: "0 \<le> utf32_codepoint h c" "utf32_codepoint h c \<le> 0xffffffff"
      using utf32_codepoint_range [of h c] inv pair by auto
    show ?thesis
    proof (intro conjI impI)
      assume "offset + length out \<le> length dst"
      then have "offset + 4 \<le> length dst" by (simp add: u length_bytes32)
      from write32_ok [OF r this, of le] obtain dst1
        where "write32 le dst (utf32_codepoint h c) offset = Inr dst1"
          and "length dst1 = length dst"
          and "take (offset + 4) dst1 = take offset dst @ bytes32 le (utf32_codepoint h c)"
        by blast
      then show "\<exists>dst1. utf32_enc_step le (h, dst, offset) c = Inr (h1, dst1, offset + length out)
                  \<and> length dst1 = length dst
                  \<and> take (offset + length out) dst1 = take offset dst @ out"
        using nh by (simp add: pair u length_bytes32 utf32_enc_step_def Let_def)
    next
      assume "length dst < offset + length out"
      then have "length dst < offset + 4" by (simp add: u length_bytes32)
      then show "utf32_enc_step le (h, dst, offset) c = Inl RangeError"
        using nh by (simp add: pair utf32_enc_step_def Let_def write32_full)
    qed
  next
    case lone_high
    have u: "out = bytes32 le (uint h)" "h1 = c"
      using units by (simp_all add: lone_high)
    show ?thesis
    proof (intro conjI impI)
      assume "offset + length out \<le> length dst"
      then have "offset + 4 \<le> length dst" by (simp add: u length_bytes32)
      from write32_ok [OF _ _ this, of "uint h" le] uint16_range [of h] obtain dst1
        where "write32 le dst (uint h) offset = Inr dst1"
          and "length dst1 = length dst"
          and "take (offset + 4) dst1 = take offset dst @ bytes32 le (uint h)"
        by blast
      then show "\<exists>dst1. utf32_enc_step le (h, dst, offset) c = Inr (h1, dst1, offset + length out)
                  \<and> length dst1 = length dst
                  \<and> take (offset + length out) dst1 = take offset dst @ out"
        by (simp add: lone_high u length_bytes32 utf32_enc_step_def Let_def utf32_enc_store_def)
    next
      assume "length dst < offset + length out"
      then have "length dst < offset + 4" by (simp add: u length_bytes32)
      then show "utf32_enc_step le (h, dst, offset) c = Inl RangeError"
        by (simp add: lone_high utf32_enc_step_def Let_def write32_full)
    qed
  next
    case lone_other
    have u: "out = bytes32 le (uint h) @ bytes32 le (uint c)" "h1 = 0"
      using units by (simp_all add: lone_other)
    show ?thesis
    proof (intro conjI impI)
      assume "offset + length out \<le> length dst"
      then have c8: "offset + 4 + 4 \<le> length dst" by (simp add: u length_bytes32)
      then have c4: "offset + 4 \<le> length dst" by simp
      from write32_ok [OF _ _ c4, of "uint h" le] uint16_range [of h] obtain dst1
        where 1: "write32 le dst (uint h) offset = Inr dst1"
          and l1: "length dst1 = length dst"
          and t1: "take (offset + 4) dst1 = take offset dst @ bytes32 le (uint h)"
        by blast
      from c8 l1 have "offset + 4 + 4 \<le> length dst1" by simp
      from write32_ok [OF _ _ this, of "uint c" le] uint16_range [of c] obtain dst2
        where 2: "write32 le dst1 (uint c) (offset + 4) = Inr dst2"
          and l2: "length dst2 = length dst1"
          and t2: "take (offset + 4 + 4) dst2 = take (offset + 4) dst1 @ bytes32 le (uint c)"
        by blast
      have "utf32_enc_step le (h, dst, offset) c = Inr (0, dst2, offset + 4 + 4)"
        using 1 2 by (simp add: lone_other utf32_enc_step_def Let_def utf32_enc_store_def)
      then show "\<exists>dst1. utf32_enc_step le (h, dst, offset) c = Inr (h1, dst1, offset + length out)
                  \<and> length dst1 = length dst
                  \<and> take (offset + length out) dst1 = take offset dst @ out"
        using l1 l2 t1 t2 by (simp add: u length_bytes32 ac_simps)
    next
      assume "length dst < offset + length out"
      then have f: "length dst < offset + 4 + 4" by (simp add: u length_bytes32)
      show "utf32_enc_step le (h, dst, offset) c = Inl RangeError"
      proof (cases "offset + 4 \<le> length dst")
        case True
        from write32_ok [OF _ _ True, of "uint h" le] uint16_range [of h] obtain dst1
          where 1: "write32 le dst (uint h) offset = Inr dst1"
            and l1: "length dst1 = length dst" by blast
        from f l1 have "length dst1 < offset + 4 + 4" by simp
        then have "write32 le dst1 (uint c) (offset + 4) = Inl RangeError"
          by (rule write32_full)
        then show ?thesis
          using 1 by (simp add: lone_other utf32_enc_step_def Let_def utf32_enc_store_def)
      next
        case False
        then have "write32 le dst (uint h) offset = Inl RangeError"
          by (simp add: write32_full)
        then show ?thesis
          by (simp add: lone_other utf32_enc_step_def Let_def)
      qed
    qed
  next
    case high
    then have u: "out = []" "h1 = c" using units by simp_all
    show ?thesis using off
      by (simp add: high u utf32_enc_step_def Let_def utf32_enc_store_def)
  next
    case other
    have u: "out = bytes32 le (uint c)" "h1 = 0"
      using units by (simp_all add: other)
    show ?thesis
    proof (intro conjI impI)
      assume "offset + length out \<le> length dst"
      then have "offset + 4 \<le> length dst" by (simp add: u length_bytes32)
      from write32_ok [OF _ _ this, of "uint c" le] uint16_range [of c] obtain dst1
        where "write32 le dst (uint c) offset = Inr dst1"
          and "length dst1 = length dst"
          and "take (offset + 4) dst1 = take offset dst @ bytes32 le (uint c)"
        by blast
      then show "\<exists>dst1. utf32_enc_step le (h, dst, offset) c = Inr (h1, dst1, offset + length out)
                  \<and> length dst1 = length dst
                  \<and> take (offset + length out) dst1 = take offset dst @ out"
        by (simp add: other u length_bytes32 utf32_enc_step_def Let_def utf32_enc_store_def)
    next
      assume "length dst < offset + length out"
      then have "length dst < offset + 4" by (simp add: u length_bytes32)
      then show "utf32_enc_step le (h, dst, offset) c = Inl RangeError"
        by (simp add: other utf32_enc_step_def Let_def utf32_enc_store_def write32_full)
    qed
  qed
qed


subsection \<open>The loop of write\<close>

lemma readUInt16LE_ucs2: "readUInt16LE (ucast c) (ucast (drop_bit 8 c)) = (c::unit16)"
  unfolding readUInt16LE_def
proof (rule bit_word_eqI)
  fix n assume "n < LENGTH(16)"
  then show "bit (ucast (ucast c :: byte) OR push_bit 8 (ucast (ucast (drop_bit 8 c) :: byte)) :: unit16) n
           = bit c n"
    by (cases "n < 8") (auto simp add: bit_simps)
qed

lemma Buffer_from_ucs2_Cons:
  "Buffer_from_ucs2 (c # str) = ucast c # ucast (drop_bit 8 c) # Buffer_from_ucs2 str"
  by (simp add: Buffer_from_ucs2_def)

lemma length_Buffer_from_ucs2: "length (Buffer_from_ucs2 str) = 2 * length str"
  by (induction str) (simp_all add: Buffer_from_ucs2_def)

lemma utf32_enc_loop_units:
  "h = 0 \<or> (0xd800 \<le> h \<and> h < 0xdc00) \<Longrightarrow> offset \<le> length dst \<Longrightarrow>
   (offset + length (fst (utf32_units le h str)) \<le> length dst \<longrightarrow>
      (\<exists>dst1. utf32_enc_loop le (h, dst, offset) (Buffer_from_ucs2 str)
                 = Inr (snd (utf32_units le h str), dst1,
                        offset + length (fst (utf32_units le h str)))
             \<and> length dst1 = length dst
             \<and> take (offset + length (fst (utf32_units le h str))) dst1
                 = take offset dst @ fst (utf32_units le h str)))
   \<and> (length dst < offset + length (fst (utf32_units le h str)) \<longrightarrow>
        utf32_enc_loop le (h, dst, offset) (Buffer_from_ucs2 str) = Inl RangeError)"
proof (induction str arbitrary: h dst offset)
  case Nil
  then show ?case by (simp add: Buffer_from_ucs2_def)
next
  case (Cons c str)
  obtain out h1 where u: "utf32_units le h [c] = (out, h1)"
    by (cases "utf32_units le h [c]") auto
  have inv1: "h1 = 0 \<or> (0xd800 \<le> h1 \<and> h1 < 0xdc00)"
    using utf32_units_pending [OF Cons.prems(1), of le c] u by simp
  have uc: "utf32_units le h (c # str)
              = (out @ fst (utf32_units le h1 str), snd (utf32_units le h1 str))"
    using utf32_units_Cons [of le h c str] u by simp
  note step = utf32_enc_step_gen [OF Cons.prems(1) u Cons.prems(2)]
  have loop: "utf32_enc_loop le (h, dst, offset) (Buffer_from_ucs2 (c # str))
                = (case utf32_enc_step le (h, dst, offset) c of
                     Inl e \<Rightarrow> Inl e
                   | Inr s1 \<Rightarrow> utf32_enc_loop le s1 (Buffer_from_ucs2 str))"
    by (simp add: Buffer_from_ucs2_Cons readUInt16LE_ucs2)
  show ?case
  proof (cases "offset + length out \<le> length dst")
    case True
    with step obtain dst1
      where s: "utf32_enc_step le (h, dst, offset) c = Inr (h1, dst1, offset + length out)"
        and l1: "length dst1 = length dst"
        and t1: "take (offset + length out) dst1 = take offset dst @ out"
      by blast
    have off1: "offset + length out \<le> length dst1" using True l1 by simp
    note ih = Cons.IH [OF inv1 off1]
    show ?thesis
    proof (intro conjI impI)
      assume "offset + length (fst (utf32_units le h (c # str))) \<le> length dst"
      then have "offset + length out + length (fst (utf32_units le h1 str)) \<le> length dst1"
        by (simp add: uc l1 del: utf32_units.simps)
      with ih obtain dst2
        where 2: "utf32_enc_loop le (h1, dst1, offset + length out) (Buffer_from_ucs2 str)
                    = Inr (snd (utf32_units le h1 str), dst2,
                           offset + length out + length (fst (utf32_units le h1 str)))"
          and l2: "length dst2 = length dst1"
          and t2: "take (offset + length out + length (fst (utf32_units le h1 str))) dst2
                     = take (offset + length out) dst1 @ fst (utf32_units le h1 str)"
        by blast
      show "\<exists>dst1. utf32_enc_loop le (h, dst, offset) (Buffer_from_ucs2 (c # str))
                 = Inr (snd (utf32_units le h (c # str)), dst1,
                        offset + length (fst (utf32_units le h (c # str))))
             \<and> length dst1 = length dst
             \<and> take (offset + length (fst (utf32_units le h (c # str)))) dst1
                 = take offset dst @ fst (utf32_units le h (c # str))"
        using 2 l2 t2 l1 t1
        by (simp only: loop s uc fst_conv snd_conv length_append) (simp add: add.assoc)
    next
      assume "length dst < offset + length (fst (utf32_units le h (c # str)))"
      then have "length dst1 < offset + length out + length (fst (utf32_units le h1 str))"
        by (simp add: uc l1 del: utf32_units.simps)
      with ih have "utf32_enc_loop le (h1, dst1, offset + length out) (Buffer_from_ucs2 str)
                      = Inl RangeError"
        by blast
      then show "utf32_enc_loop le (h, dst, offset) (Buffer_from_ucs2 (c # str)) = Inl RangeError"
        by (simp only: loop s) simp
    qed
  next
    case False
    with step have s: "utf32_enc_step le (h, dst, offset) c = Inl RangeError"
      by simp
    from False have "\<not> offset + length (fst (utf32_units le h (c # str))) \<le> length dst"
      by (simp add: uc del: utf32_units.simps)
    then show ?thesis
      by (simp only: loop s) simp
  qed
qed


subsection \<open>write, end and byteLength on lists\<close>

lemma Utf32Encoder_write_units:
  assumes "highSurrogate this = 0 \<or> (0xd800 \<le> highSurrogate this \<and> highSurrogate this < 0xdc00)"
  shows "Utf32Encoder_write this str =
     (if length (fst (utf32_units (Utf32Encoder.isLE this) (highSurrogate this) str))
           \<le> 4 * length str
      then Inr (fst (utf32_units (Utf32Encoder.isLE this) (highSurrogate this) str),
                this\<lparr>highSurrogate :=
                       snd (utf32_units (Utf32Encoder.isLE this) (highSurrogate this) str)\<rparr>)
      else Inl RangeError)"
proof -
  let ?le = "Utf32Encoder.isLE this" and ?h = "highSurrogate this"
  let ?dst = "Buffer_alloc (length (Buffer_from_ucs2 str) * 2)"
  let ?out = "fst (utf32_units ?le ?h str)"
  have ld: "length ?dst = 4 * length str"
    by (simp add: Buffer_alloc_def length_Buffer_from_ucs2)
  have "0 \<le> length ?dst" by simp
  note loop = utf32_enc_loop_units [OF assms this, of ?le str]
  show ?thesis
  proof (cases "length ?out \<le> 4 * length str")
    case True
    with loop ld obtain dst1
      where 1: "utf32_enc_loop ?le (?h, ?dst, 0) (Buffer_from_ucs2 str)
                  = Inr (snd (utf32_units ?le ?h str), dst1, 0 + length ?out)"
        and l1: "length dst1 = length ?dst"
        and t1: "take (0 + length ?out) dst1 = take 0 ?dst @ ?out"
      by auto
    have "(if length ?out < length dst1 then take (length ?out) dst1 else dst1) = ?out"
      using t1 True l1 ld by auto
    then show ?thesis
      using True 1 by (simp add: Utf32Encoder_write_def Let_def)
  next
    case False
    with loop ld have "utf32_enc_loop ?le (?h, ?dst, 0) (Buffer_from_ucs2 str) = Inl RangeError"
      by auto
    then show ?thesis
      using False by (simp add: Utf32Encoder_write_def Let_def)
  qed
qed

lemma utf32_units_length:
  "length (fst (utf32_units le h str)) + (if snd (utf32_units le h str) \<noteq> 0 then 4 else 0)
     = (if h \<noteq> 0 then 4 else 0) + 4 * length str
   \<or> length (fst (utf32_units le h str)) + (if snd (utf32_units le h str) \<noteq> 0 then 4 else 0)
     < (if h \<noteq> 0 then 4 else 0) + 4 * length str"
proof (induction str arbitrary: h)
  case Nil
  show ?case by simp
next
  case (Cons c str)
  have hi: "0xd800 \<le> c \<and> c < 0xdc00 \<Longrightarrow> c \<noteq> 0" by auto
  show ?case
    using Cons.IH [of 0] Cons.IH [of c] hi
    by (auto simp add: length_bytes32)
qed

lemma utf32_byteLength_loop_units:
  "utf32_byteLength_loop (n, h) str =
     (n + int (length (fst (utf32_units le h str))), snd (utf32_units le h str))"
proof (induction str arbitrary: n h)
  case Nil
  show ?case by simp
next
  case (Cons c str)
  have lo: "0xdc00 \<le> c \<and> c < 0xe000 \<Longrightarrow> \<not> (0xd800 \<le> c \<and> c < 0xdc00)"
    by (auto simp: word_le_nat_alt word_less_nat_alt)
  show ?case
    using lo by (auto simp add: Cons.IH length_bytes32 Let_def)
qed

lemma Utf32Encoder_end_units:
  "Utf32Encoder_end this =
     (if highSurrogate this = 0 then Inr (None, this)
      else Inr (Some (bytes32 (Utf32Encoder.isLE this) (uint (highSurrogate this))),
                this\<lparr>highSurrogate := 0\<rparr>))"
proof -
  have "0 + 4 \<le> length (Buffer_alloc 4)" by (simp add: Buffer_alloc_def)
  from write32_ok [OF _ _ this, of "uint (highSurrogate this)" "Utf32Encoder.isLE this"]
    uint16_range [of "highSurrogate this"]
  obtain buf where "write32 (Utf32Encoder.isLE this) (Buffer_alloc 4) (uint (highSurrogate this)) 0
                      = Inr buf"
    and "length buf = length (Buffer_alloc 4)"
    and "take (0 + 4) buf = take 0 (Buffer_alloc 4) @ bytes32 (Utf32Encoder.isLE this)
                                                         (uint (highSurrogate this))"
    by blast
  then show ?thesis
    by (simp add: Utf32Encoder_end_def Buffer_alloc_def)
qed

text \<open>
  Claim C8. On a fresh session \<open>write(str)\<close> and then \<open>end()\<close> both return, and
  \<open>byteLength(str)\<close> is the number of bytes of the two results together, for every
  string of code units, lone surrogates included.
\<close>

theorem Utf32Encoder_byteLength_exact:
  "\<exists>out this1 tail this2.
     Utf32Encoder_write (Utf32Encoder_new le) str = Inr (out, this1)
     \<and> Utf32Encoder_end this1 = Inr (tail, this2)
     \<and> Utf32Encoder_byteLength str
         = int (length out) + (case tail of None \<Rightarrow> 0 | Some buf \<Rightarrow> int (length buf))"
proof -
  let ?out = "fst (utf32_units le 0 str)" and ?h = "snd (utf32_units le 0 str)"
  let ?this1 = "(Utf32Encoder_new le)\<lparr>highSurrogate := ?h\<rparr>"
  have fit: "length ?out \<le> 4 * length str"
    using utf32_units_length [of le 0 str] by auto
  have w: "Utf32Encoder_write (Utf32Encoder_new le) str = Inr (?out, ?this1)"
    using Utf32Encoder_write_units [of "Utf32Encoder_new le" str] fit
    by (simp add: Utf32Encoder_new_def)
  have b: "Utf32Encoder_byteLength str = int (length ?out) + (if ?h \<noteq> 0 then 4 else 0)"
    by (simp add: Utf32Encoder_byteLength_def utf32_byteLength_loop_units [of 0 0 str le])
  show ?thesis
  proof (cases "?h = 0")
    case True
    then have "Utf32Encoder_end ?this1 = Inr (None, ?this1)"
      by (simp add: Utf32Encoder_end_units)
    with w b True show ?thesis by simp
  next
    case False
    then have "Utf32Encoder_end ?this1
                 = Inr (Some (bytes32 le (uint ?h)), ?this1\<lparr>highSurrogate := 0\<rparr>)"
      by (simp add: Utf32Encoder_end_units Utf32Encoder_new_def)
    with w b False show ?thesis by (simp add: length_bytes32)
  qed
qed

theorem Utf32Encoder_byteLength_exact_witness:
  "Utf32Encoder_write (Utf32Encoder_new True) [0x41, 0xdc00, 0xd834, 0xdd1e, 0xd800]
     = Inr ([0x41, 0, 0, 0, 0, 0xdc, 0, 0, 0x1e, 0xd1, 1, 0],
            \<lparr>Utf32Encoder.isLE = True, highSurrogate = 0xd800\<rparr>)
   \<and> Utf32Encoder_end \<lparr>Utf32Encoder.isLE = True, highSurrogate = 0xd800\<rparr>
     = Inr (Some [0, 0xd8, 0, 0], \<lparr>Utf32Encoder.isLE = True, highSurrogate = 0\<rparr>)
   \<and> Utf32Encoder_byteLength [0x41, 0xdc00, 0xd834, 0xdd1e, 0xd800] = 16"
proof -
  have "Utf32Encoder_write (Utf32Encoder_new True) [0x41, 0xdc00, 0xd834, 0xdd1e, 0xd800]
     = Inr ([0x41, 0, 0, 0, 0, 0xdc, 0, 0, 0x1e, 0xd1, 1, 0],
            \<lparr>Utf32Encoder.isLE = True, highSurrogate = 0xd800\<rparr>)"
    by code_simp
  moreover have "Utf32Encoder_end \<lparr>Utf32Encoder.isLE = True, highSurrogate = 0xd800\<rparr>
     = Inr (Some [0, 0xd8, 0, 0], \<lparr>Utf32Encoder.isLE = True, highSurrogate = 0\<rparr>)"
    by code_simp
  ultimately show ?thesis
    using Utf32Encoder_byteLength_exact [of True "[0x41, 0xdc00, 0xd834, 0xdd1e, 0xd800]"]
    by simp
qed

text \<open>
  Claim C4, where the code departs from it. A high surrogate that is pending from an
  earlier chunk is written into the buffer of the next \<open>write\<close>, which is allocated for
  the code units of that chunk alone (four bytes each). When the chunk is the single
  code unit \<open>A\<close>, the pending surrogate fills the buffer and the store of \<open>A\<close> throws.
\<close>

theorem Utf32Encoder_pending_overflow:
  "Utf32Encoder_write (Utf32Encoder_new True) [0xd800]
     = Inr ([], \<lparr>Utf32Encoder.isLE = True, highSurrogate = 0xd800\<rparr>)
   \<and> Utf32Encoder_write \<lparr>Utf32Encoder.isLE = True, highSurrogate = 0xd800\<rparr> [0x41]
     = Inl RangeError"
  by code_simp

section \<open>UTF-32 decoder\<close>

subsection \<open>The value of a group\<close>






subsection \<open>Code points and code units\<close>












subsection \<open>Storing one code point\<close>





subsection \<open>The loops of write\<close>
















subsection \<open>Well-formed output\<close>








text \<open>
  Claim C1, where the code departs from it. The stream \<open>41 00 00 00\<close> is the letter
  \<open>A\<close> in one chunk. Cut after the first byte, the second \<open>write\<close> fills the overflow
  array to \<open>[41, 00, 00, 00]\<close> with \<open>i = 3\<close> and then reads \<open>overflow[i]\<close> to
  \<open>overflow[i + 3]\<close> instead of \<open>overflow[0]\<close> to \<open>overflow[3]\<close>: it decodes
  the code point 0.
\<close>

theorem Utf32Decoder_chunked_differs:
  "Utf32Decoder_stream (Utf32Decoder_new True 0xfffd) [[0x41, 0, 0, 0]] = [0x41]
   \<and> Utf32Decoder_stream (Utf32Decoder_new True 0xfffd) [[0x41], [0, 0, 0]] = [0]
   \<and> Utf32Decoder_write \<lparr>Utf32Decoder.isLE = True, badChar = 0xfffd, overflow = [0x41]\<rparr> [0, 0, 0]
       = ([0], \<lparr>Utf32Decoder.isLE = True, badChar = 0xfffd, overflow = []\<rparr>)"
  by code_simp

section \<open>Base64 streaming encoder: properties\<close>

lemma search_eq_tail_found:
  "\<exists>p. search_eq_tail str = int p \<and> list_all (\<lambda>c. c = 0x3d) (drop p str)"
proof -
  let ?P = "\<lambda>p. list_all (\<lambda>c. c = 0x3d) (drop p str)"
  have "length str \<in> set [0 ..< Suc (length str)]" by simp
  moreover have "?P (length str)" by simp
  ultimately have "find ?P [0 ..< Suc (length str)] \<noteq> None"
    by (simp only: find_None_iff) blast
  then obtain p where f: "find ?P [0 ..< Suc (length str)] = Some p" by auto
  then have "?P p" by (auto simp add: find_Some_iff)
  with f show ?thesis by (auto simp add: search_eq_tail_def)
qed

lemma search_eq_tail_nonneg: "search_eq_tail str \<noteq> - 1"
  using search_eq_tail_found [of str] by auto

lemma InternalEncoderBase64_byteLength_eq:
  "InternalEncoderBase64_byteLength str =
     (search_eq_tail (take (length str - length str mod 4) str) * 3) div 4
     + (search_eq_tail (drop (length str - length str mod 4) str) * 3) div 4"
  by (simp add: InternalEncoderBase64_byteLength_def Let_def search_eq_tail_nonneg)

subsection \<open>Any decoder within the bound\<close>

text \<open>
  On a fresh session \<open>write(str)\<close> decodes the complete quads of \<open>str\<close> and \<open>end()\<close> the
  rest, the same two portions that \<open>byteLength\<close> measures. So a decoder that returns at
  most \<open>floor(3 n / 4)\<close> bytes for a portion with \<open>n\<close> characters before its trailing run
  of \<open>=\<close> stays within \<open>byteLength(str)\<close>.
\<close>

lemma InternalEncoderBase64_fresh_write_end:
  "InternalEncoderBase64_write b64 InternalEncoderBase64_new str
     = (b64 (take (length str - length str mod 4) str),
        \<lparr>prevStr = drop (length str - length str mod 4) str\<rparr>)
   \<and> InternalEncoderBase64_end b64 \<lparr>prevStr = drop (length str - length str mod 4) str\<rparr>
     = (b64 (drop (length str - length str mod 4) str),
        \<lparr>prevStr = drop (length str - length str mod 4) str\<rparr>)"
  by (simp add: InternalEncoderBase64_write_def InternalEncoderBase64_new_def
      InternalEncoderBase64_end_def Let_def)

lemma InternalEncoderBase64_byteLength_bound_for:
  assumes "\<And>x. int (length (b64 x)) \<le> (search_eq_tail x * 3) div 4"
  shows "int (length (fst (InternalEncoderBase64_write b64 InternalEncoderBase64_new str)))
         + int (length (fst (InternalEncoderBase64_end b64
                  (snd (InternalEncoderBase64_write b64 InternalEncoderBase64_new str)))))
         \<le> InternalEncoderBase64_byteLength str"
proof -
  let ?q = "length str - length str mod 4"
  note we = InternalEncoderBase64_fresh_write_end [of b64 str]
  show ?thesis
    using assms [of "take ?q str"] assms [of "drop ?q str"]
    by (simp only: we fst_conv snd_conv InternalEncoderBase64_byteLength_eq; simp)
qed

subsection \<open>The host's decoder is within the bound\<close>

lemma length_b64_groups: "length (b64_groups vs) = (3 * length vs) div 4"
  by (induction vs rule: b64_groups.induct) simp_all

lemma length_map_filter_le: "length (List.map_filter f xs) \<le> length xs"
  by (induction xs) (auto split: option.splits)

lemma takeWhile_before_tail:
  assumes "list_all (\<lambda>c. c = e) (drop p xs)" and "\<not> P e"
  shows "length (takeWhile P xs) \<le> p"
proof (rule ccontr)
  assume "\<not> length (takeWhile P xs) \<le> p"
  then have l: "p < length (takeWhile P xs)" by simp
  then have "takeWhile P xs ! p \<in> set (takeWhile P xs)"
    by (rule nth_mem)
  then have ne: "P (takeWhile P xs ! p)"
    by (auto dest: set_takeWhileD)
  have x: "takeWhile P xs ! p = xs ! p"
    using l by (rule takeWhile_nth)
  have pl: "p < length xs"
    using l length_takeWhile_le [of P xs] by simp
  then have "xs ! p \<in> set (drop p xs)"
    by (simp add: Cons_nth_drop_Suc [symmetric])
  with assms(1) have "xs ! p = e" by (simp add: list_all_iff)
  with ne x assms(2) show False by simp
qed

lemma node_base64_digits:
  "node_base64 x =
     b64_groups (List.map_filter b64_digit
       (map ucast (takeWhile (\<lambda>c. (ucast c :: byte) \<noteq> 0x3d) x)))"
  by (simp add: node_base64_def takeWhile_map comp_def)

lemma node_base64_bound: "int (length (node_base64 x)) \<le> (search_eq_tail x * 3) div 4"
proof -
  from search_eq_tail_found [of x] obtain p
    where s: "search_eq_tail x = int p" and a: "list_all (\<lambda>c. c = 0x3d) (drop p x)" by blast
  let ?ts = "takeWhile (\<lambda>c. (ucast c :: byte) \<noteq> 0x3d) x"
  let ?vs = "List.map_filter b64_digit (map ucast ?ts)"
  have "length ?vs \<le> length (map (ucast :: unit16 \<Rightarrow> byte) ?ts)"
    by (rule length_map_filter_le)
  also have "\<dots> = length ?ts" by simp
  also have "\<dots> \<le> p" by (rule takeWhile_before_tail [OF a]) simp
  finally have "(3 * length ?vs) div 4 \<le> (3 * p) div 4"
    by (simp add: div_le_mono)
  then have "int (length (node_base64 x)) \<le> int ((3 * p) div 4)"
    by (simp only: node_base64_digits length_b64_groups; simp)
  also have "\<dots> = (search_eq_tail x * 3) div 4"
    by (simp add: s zdiv_int mult.commute)
  finally show ?thesis .
qed

text \<open>
  Claim C9. On a fresh session and for every string \<open>str\<close>, \<open>byteLength(str)\<close> is at
  least the number of bytes that \<open>write(str)\<close> and \<open>end()\<close> return together, with the
  host's decoder \<open>node_base64\<close> doing the decoding.
\<close>

theorem InternalEncoderBase64_byteLength_upper_bound:
  "int (length (fst (InternalEncoderBase64_write node_base64 InternalEncoderBase64_new str)))
   + int (length (fst (InternalEncoderBase64_end node_base64
            (snd (InternalEncoderBase64_write node_base64 InternalEncoderBase64_new str)))))
   \<le> InternalEncoderBase64_byteLength str"
  by (rule InternalEncoderBase64_byteLength_bound_for) (rule node_base64_bound)

theorem InternalEncoderBase64_byteLength_upper_bound_witness:
  "InternalEncoderBase64_write node_base64 InternalEncoderBase64_new
       [0x51, 0x55, 0x4a, 0x44, 0x52, 0x41]
     = ([0x41, 0x42, 0x43], \<lparr>prevStr = [0x52, 0x41]\<rparr>)
   \<and> InternalEncoderBase64_end node_base64 \<lparr>prevStr = [0x52, 0x41]\<rparr>
     = ([0x44], \<lparr>prevStr = [0x52, 0x41]\<rparr>)
   \<and> (3::int) + 1 \<le> InternalEncoderBase64_byteLength [0x51, 0x55, 0x4a, 0x44, 0x52, 0x41]"
proof -
  have w: "InternalEncoderBase64_write node_base64 InternalEncoderBase64_new
             [0x51, 0x55, 0x4a, 0x44, 0x52, 0x41]
           = ([0x41, 0x42, 0x43], \<lparr>prevStr = [0x52, 0x41]\<rparr>)"
    by code_simp
  have e: "InternalEncoderBase64_end node_base64 \<lparr>prevStr = [0x52, 0x41]\<rparr>
           = ([0x44], \<lparr>prevStr = [0x52, 0x41]\<rparr>)"
    by code_simp
  show ?thesis
    using InternalEncoderBase64_byteLength_upper_bound [of "[0x51, 0x55, 0x4a, 0x44, 0x52, 0x41]"]
    by (simp add: w e)
qed

section \<open>State after construction and after end\<close>

lemma fresh_sessions_no_state:
  "\<not> InternalDecoderCesu8_hasState (InternalDecoderCesu8_new d)
   \<and> \<not> InternalEncoderBase64_hasState InternalEncoderBase64_new
   \<and> \<not> InternalEncoderCesu8_hasState
   \<and> \<not> Utf32Encoder_hasState (Utf32Encoder_new le)
   \<and> \<not> Utf32Decoder_hasState (Utf32Decoder_new le bad)"
  by (simp add: InternalDecoderCesu8_hasState_def InternalDecoderCesu8_new_def
      InternalEncoderBase64_hasState_def InternalEncoderBase64_new_def
      InternalEncoderCesu8_hasState_def Utf32Encoder_hasState_def Utf32Encoder_new_def
      Utf32Decoder_hasState_def Utf32Decoder_new_def)

lemma Utf32Decoder_end_no_state: "\<not> Utf32Decoder_hasState (snd (Utf32Decoder_end this))"
  by (simp add: Utf32Decoder_end_def Utf32Decoder_hasState_def)

lemma Utf32Encoder_end_no_state:
  "Utf32Encoder_end this = Inr (out, this1) \<Longrightarrow> \<not> Utf32Encoder_hasState this1"
  by (auto simp add: Utf32Encoder_end_units Utf32Encoder_hasState_def split: if_splits)

text \<open>
  Claim C2, where the code departs from it. The UTF-32 sessions empty their state in
  \<open>end()\<close>; the CESU-8 decoder and the base64 encoder do not assign any field there.
  After the lone leader \<open>C3\<close> the CESU-8 decoder's \<open>end()\<close> returns the replacement
  character and \<open>contBytes\<close> is still 1; after the two characters \<open>QQ\<close> the base64
  encoder's \<open>end()\<close> returns the byte \<open>A\<close> and \<open>prevStr\<close> is still \<open>QQ\<close>. In both
  sessions \<open>hasState\<close> is true after \<open>end()\<close>.
\<close>

theorem end_keeps_state:
  "InternalDecoderCesu8_end (snd (InternalDecoderCesu8_write (InternalDecoderCesu8_new [0xfffd]) [0xc3]))
     = ([0xfffd], \<lparr>acc = 3, contBytes = 1, accBytes = 1, defaultCharUnicode = [0xfffd]\<rparr>)
   \<and> InternalDecoderCesu8_hasState
        \<lparr>acc = 3, contBytes = 1, accBytes = 1, defaultCharUnicode = [0xfffd]\<rparr>
   \<and> InternalEncoderBase64_end node_base64
        (snd (InternalEncoderBase64_write node_base64 InternalEncoderBase64_new [0x51, 0x51]))
     = ([0x41], \<lparr>prevStr = [0x51, 0x51]\<rparr>)
   \<and> InternalEncoderBase64_hasState \<lparr>prevStr = [0x51, 0x51]\<rparr>"
  by code_simp

end
